theory Spec2Isabelle
  imports Complex_Main "HOL-Library.Word"
begin

unbundle bit_operations_syntax

section \<open>JavaScript values used by the component\<close>

text \<open>
  A JavaScript \<open>number\<close> is an IEEE double. The model keeps the three special values apart
  and carries every finite value as a real, with exact arithmetic. For the encoder this is
  what the machine computes: a sample is a 32-bit float (24 significant bits), clamping does
  not round, and its product with \<open>0x7FFF\<close> or \<open>0x8000\<close> has at most 39 significant bits,
  so the double result is the exact product. The same holds for the byte rate in the header,
  the product of a sample rate (a 32-bit float) and a block alignment below \<open>2 ^ 29\<close>. The
  two signed zeros are one value here; the code below cannot tell them apart (\<open>-0 < 0\<close> is
  false and both convert to the integer 0).
\<close>

datatype number = Finite real | NaN | PosInfinity | NegInfinity

text \<open>A thrown value, identified by its \<open>name\<close> property.\<close>

datatype error = Exception string

abbreviation RangeError :: error where
  "RangeError \<equiv> Exception ''RangeError''"

abbreviation IndexSizeError :: error where
  "IndexSizeError \<equiv> Exception ''IndexSizeError''"

abbreviation NotSupportedError :: error where
  "NotSupportedError \<equiv> Exception ''NotSupportedError''"

text \<open>Sequencing of statements that may throw: the first exception ends the run.\<close>

definition bind_e :: "error + 'a \<Rightarrow> ('a \<Rightarrow> error + 'b) \<Rightarrow> error + 'b" where
  "bind_e m f = (case m of Inl e \<Rightarrow> Inl e | Inr a \<Rightarrow> f a)"

text \<open>The relational operator \<open>a < b\<close> on numbers: false as soon as one side is NaN.\<close>

fun lt :: "number \<Rightarrow> number \<Rightarrow> bool" where
  "lt (Finite a) (Finite b) = (a < b)"
| "lt (Finite a) PosInfinity = True"
| "lt NegInfinity (Finite b) = True"
| "lt NegInfinity PosInfinity = True"
| "lt _ _ = False"

definition Math_min :: "number \<Rightarrow> number \<Rightarrow> number" where
  "Math_min a b = (if a = NaN \<or> b = NaN then NaN else if lt b a then b else a)"

definition Math_max :: "number \<Rightarrow> number \<Rightarrow> number" where
  "Math_max a b = (if a = NaN \<or> b = NaN then NaN else if lt a b then b else a)"

text \<open>The operator \<open>*\<close>: NaN is absorbing, an infinity times zero is NaN.\<close>

fun times_inf :: "bool \<Rightarrow> number \<Rightarrow> number" where
  "times_inf pos (Finite b) =
     (if b = 0 then NaN else if (0 < b) = pos then PosInfinity else NegInfinity)"
| "times_inf pos PosInfinity = (if pos then PosInfinity else NegInfinity)"
| "times_inf pos NegInfinity = (if pos then NegInfinity else PosInfinity)"
| "times_inf pos NaN = NaN"

fun times_number :: "number \<Rightarrow> number \<Rightarrow> number" where
  "times_number (Finite a) (Finite b) = Finite (a * b)"
| "times_number (Finite a) PosInfinity = times_inf True (Finite a)"
| "times_number (Finite a) NegInfinity = times_inf False (Finite a)"
| "times_number (Finite a) NaN = NaN"
| "times_number PosInfinity b = times_inf True b"
| "times_number NegInfinity b = times_inf False b"
| "times_number NaN b = NaN"

text \<open>
  The integer conversions of ECMAScript (\<open>ToUint8\<close>, \<open>ToUint16\<close>, \<open>ToInt16\<close>, \<open>ToUint32\<close>):
  NaN and the infinities give 0, a finite value is truncated towards zero and reduced
  modulo \<open>2 ^ w\<close>. \<open>ToInt16\<close> and \<open>ToUint16\<close> yield the same 16 bits, read with \<open>sint\<close>
  and \<open>uint\<close>.
\<close>

definition trunc :: "real \<Rightarrow> int" where
  "trunc x = (if x < 0 then \<lceil>x\<rceil> else \<lfloor>x\<rfloor>)"

fun ToIntegral :: "number \<Rightarrow> int" where
  "ToIntegral (Finite x) = trunc x"
| "ToIntegral _ = 0"

definition ToUint8 :: "number \<Rightarrow> 8 word" where
  "ToUint8 x = word_of_int (ToIntegral x)"

definition ToUint16 :: "number \<Rightarrow> 16 word" where
  "ToUint16 x = word_of_int (ToIntegral x)"

definition ToInt16 :: "number \<Rightarrow> 16 word" where
  "ToInt16 x = word_of_int (ToIntegral x)"

definition ToUint32 :: "number \<Rightarrow> 32 word" where
  "ToUint32 x = word_of_int (ToIntegral x)"

text \<open>A count or a size (an integral number) as a JavaScript number.\<close>

definition num :: "nat \<Rightarrow> number" where
  "num n = Finite (real n)"

text \<open>\<open>string.charCodeAt(i)\<close>: the code of the character, NaN outside the string.\<close>

definition charCodeAt :: "string \<Rightarrow> nat \<Rightarrow> number" where
  "charCodeAt s i = (if i < length s then num (of_char (s ! i)) else NaN)"

section \<open>ArrayBuffer, DataView and Float32Array\<close>

text \<open>
  An \<open>ArrayBuffer\<close> with the \<open>DataView\<close> over it is the list of its bytes, zero-filled at
  allocation. Storage is taken as unbounded, and sizes and offsets are natural numbers: in
  JavaScript they are integers below \<open>2 ^ 53\<close>, hence exact, for every buffer that can be
  allocated at all. A setter throws \<open>RangeError\<close> when the bytes it writes do not lie
  inside the buffer.
\<close>

type_synonym DataView = "8 word list"

definition new_ArrayBuffer :: "nat \<Rightarrow> DataView" where
  "new_ArrayBuffer n = replicate n 0"

definition store :: "DataView \<Rightarrow> nat \<Rightarrow> 8 word list \<Rightarrow> error + DataView" where
  "store view byteOffset bs =
     (if length view < byteOffset + length bs then Inl RangeError
      else Inr (take byteOffset view @ bs @ drop (byteOffset + length bs) view))"

definition bytes16 :: "bool \<Rightarrow> 16 word \<Rightarrow> 8 word list" where
  "bytes16 littleEndian w =
     (let bs = [ucast w, ucast (drop_bit 8 w)] in if littleEndian then bs else rev bs)"

definition bytes32 :: "bool \<Rightarrow> 32 word \<Rightarrow> 8 word list" where
  "bytes32 littleEndian w =
     (let bs = [ucast w, ucast (drop_bit 8 w), ucast (drop_bit 16 w), ucast (drop_bit 24 w)]
      in if littleEndian then bs else rev bs)"

definition setUint8 :: "DataView \<Rightarrow> nat \<Rightarrow> number \<Rightarrow> error + DataView" where
  "setUint8 view byteOffset v = store view byteOffset [ToUint8 v]"

definition setUint16 :: "DataView \<Rightarrow> nat \<Rightarrow> number \<Rightarrow> bool \<Rightarrow> error + DataView" where
  "setUint16 view byteOffset v littleEndian =
     store view byteOffset (bytes16 littleEndian (ToUint16 v))"

definition setInt16 :: "DataView \<Rightarrow> nat \<Rightarrow> number \<Rightarrow> bool \<Rightarrow> error + DataView" where
  "setInt16 view byteOffset v littleEndian =
     store view byteOffset (bytes16 littleEndian (ToInt16 v))"

definition setUint32 :: "DataView \<Rightarrow> nat \<Rightarrow> number \<Rightarrow> bool \<Rightarrow> error + DataView" where
  "setUint32 view byteOffset v littleEndian =
     store view byteOffset (bytes32 littleEndian (ToUint32 v))"

type_synonym Float32Array = "number list"

definition new_Float32Array :: "nat \<Rightarrow> Float32Array" where
  "new_Float32Array n = replicate n (Finite 0)"

text \<open>Indexing a typed array: outside the array the value is \<open>undefined\<close>, NaN as a number.\<close>

definition get_f32 :: "Float32Array \<Rightarrow> nat \<Rightarrow> number" where
  "get_f32 a i = (if i < length a then a ! i else NaN)"

section \<open>Loops\<close>

text \<open>\<open>for (let i = i0; i < n; i++) body\<close>, over a state, stopped by the first exception.\<close>

function for_loop :: "nat \<Rightarrow> nat \<Rightarrow> (nat \<Rightarrow> 's \<Rightarrow> error + 's) \<Rightarrow> 's \<Rightarrow> error + 's" where
  "for_loop i n body s =
     (if i < n
      then (case body i s of Inl e \<Rightarrow> Inl e | Inr s' \<Rightarrow> for_loop (Suc i) n body s')
      else Inr s)"
  by pat_completeness auto
termination
  by (relation "measure (\<lambda>(i, n, body, s). n - i)") auto

declare for_loop.simps [simp del]

section \<open>AudioBuffer\<close>

text \<open>
  The platform's \<open>AudioBuffer\<close>: a sample rate, a length in sample-frames and one sample
  sequence for each channel; \<open>numberOfChannels\<close> is the number of these sequences.
\<close>

record AudioBuffer =
  sampleRate :: real
  length' :: nat
  channels :: "number list list"

definition numberOfChannels :: "AudioBuffer \<Rightarrow> nat" where
  "numberOfChannels buffer = length (channels buffer)"

text \<open>
  \<open>buffer.copyFromChannel(destination, channelNumber, 0)\<close>: \<open>IndexSizeError\<close> for a channel
  that does not exist; otherwise as many frames as both sides hold are copied to the front
  of the destination, the rest of which keeps its content.
\<close>

definition copyFromChannel ::
    "AudioBuffer \<Rightarrow> Float32Array \<Rightarrow> nat \<Rightarrow> error + Float32Array" where
  "copyFromChannel buffer destination channelNumber =
     (if numberOfChannels buffer \<le> channelNumber then Inl IndexSizeError
      else (let src = channels buffer ! channelNumber;
                n = min (length destination) (length src)
            in Inr (take n src @ drop n destination)))"

text \<open>The invariant every \<open>AudioBuffer\<close> of the platform has.\<close>

definition wf_buffer :: "AudioBuffer \<Rightarrow> bool" where
  "wf_buffer buffer = list_all (\<lambda>ch. length ch = length' buffer) (channels buffer)"

section \<open>The WAV encoder: \<open>audioBufferToWav\<close>\<close>

definition writeString :: "DataView \<Rightarrow> nat \<Rightarrow> string \<Rightarrow> error + DataView" where
  "writeString view offset string =
     for_loop 0 (length string) (\<lambda>i v. setUint8 v (offset + i) (charCodeAt string i)) view"

text \<open>Lines 224 and 225: the number handed to \<open>setInt16\<close> for one sample.\<close>

definition int16_of_sample :: "number \<Rightarrow> number" where
  "int16_of_sample x =
     (let sample = Math_max (Finite (- 1)) (Math_min (Finite 1) x)
      in if lt sample (Finite 0) then times_number sample (Finite 0x8000)
         else times_number sample (Finite 0x7FFF))"

text \<open>
  Lines 221 to 228: the outer loop over the channels, which copies each channel into the one
  \<open>channelData\<close> array, and the inner loop over the frames, which stores one sample; the state
  of the outer loop is the view together with \<open>channelData\<close>.
\<close>

definition write_channel ::
    "nat \<Rightarrow> nat \<Rightarrow> nat \<Rightarrow> nat \<Rightarrow> nat \<Rightarrow> Float32Array \<Rightarrow> DataView \<Rightarrow> error + DataView" where
  "write_channel len offset blockAlign bytesPerSample channel channelData view =
     for_loop 0 len
       (\<lambda>i v. setInt16 v (offset + (i * blockAlign) + (channel * bytesPerSample))
                 (int16_of_sample (get_f32 channelData i)) True)
       view"

definition write_data ::
    "AudioBuffer \<Rightarrow> nat \<Rightarrow> nat \<Rightarrow> nat \<Rightarrow> DataView \<Rightarrow> error + DataView" where
  "write_data buffer offset blockAlign bytesPerSample view =
     bind_e
       (for_loop 0 (numberOfChannels buffer)
          (\<lambda>channel (v, channelData).
             bind_e (copyFromChannel buffer channelData channel) (\<lambda>channelData'.
             bind_e (write_channel (length' buffer) offset blockAlign bytesPerSample
                       channel channelData' v) (\<lambda>v'.
             Inr (v', channelData'))))
          (view, new_Float32Array (length' buffer)))
       (\<lambda>(v, channelData). Inr v)"

definition audioBufferToWav :: "AudioBuffer \<Rightarrow> error + 8 word list" where
  "audioBufferToWav buffer =
     (let numChannels = numberOfChannels buffer;
          sampleRate = sampleRate buffer;
          format = 1;
          bitDepth = 16;
          bytesPerSample = bitDepth div 8;
          blockAlign = numChannels * bytesPerSample;
          view = new_ArrayBuffer (44 + length' buffer * blockAlign)
      in bind_e (writeString view 0 ''RIFF'') (\<lambda>view.
         bind_e (setUint32 view 4 (num (36 + length' buffer * blockAlign)) True) (\<lambda>view.
         bind_e (writeString view 8 ''WAVE'') (\<lambda>view.
         bind_e (writeString view 12 ''fmt '') (\<lambda>view.
         bind_e (setUint32 view 16 (num 16) True) (\<lambda>view.
         bind_e (setUint16 view 20 (num format) True) (\<lambda>view.
         bind_e (setUint16 view 22 (num numChannels) True) (\<lambda>view.
         bind_e (setUint32 view 24 (Finite sampleRate) True) (\<lambda>view.
         bind_e (setUint32 view 28 (Finite (sampleRate * real blockAlign)) True) (\<lambda>view.
         bind_e (setUint16 view 32 (num blockAlign) True) (\<lambda>view.
         bind_e (setUint16 view 34 (num bitDepth) True) (\<lambda>view.
         bind_e (writeString view 36 ''data'') (\<lambda>view.
         bind_e (setUint32 view 40 (num (length' buffer * blockAlign)) True) (\<lambda>view.
         write_data buffer 44 blockAlign bytesPerSample view))))))))))))))"

section \<open>The filter configuration (\<open>filterConfig.ts\<close>)\<close>

datatype FilterType = peaking | lowshelf | highshelf | lowpass | highpass

record FilterConfig =
  type :: FilterType
  freq :: real
  gain :: real
  Q :: "real option"

definition filters :: "FilterConfig list" where
  "filters =
     [\<lparr>type = peaking, freq = 170, gain = 9.9, Q = Some 1.76\<rparr>,
      \<lparr>type = peaking, freq = 662, gain = - 8.0, Q = Some 3.0\<rparr>,
      \<lparr>type = peaking, freq = 3000, gain = - 11.2, Q = Some 2.76\<rparr>,
      \<lparr>type = highshelf, freq = 7410, gain = 10, Q = None\<rparr>]"

section \<open>Arrays as mutable objects\<close>

text \<open>
  An array is an object: \<open>sort\<close> reorders it in place, and every holder of a reference sees
  the new order. The store is the list of the arrays allocated so far, a reference is an
  index into it. The module-level binding \<open>filters\<close> refers to the first array, allocated
  when the module is loaded. The configuration objects inside the arrays are only ever read
  (\<open>createFilter\<close> reads \<open>type\<close>, \<open>freq\<close>, \<open>gain\<close> and \<open>Q\<close>), so the arrays hold them by value.
\<close>

type_synonym ref = nat
type_synonym heap = "FilterConfig list list"

definition filters_ref :: ref where
  "filters_ref = 0"

definition module_heap :: heap where
  "module_heap = [filters]"

definition array_at :: "heap \<Rightarrow> ref \<Rightarrow> FilterConfig list" where
  "array_at h r = (if r < length h then h ! r else [])"

text \<open>The spread \<open>[...a]\<close>: a new array with the elements of \<open>a\<close>.\<close>

definition spread :: "heap \<Rightarrow> ref \<Rightarrow> heap \<times> ref" where
  "spread h r = (h @ [array_at h r], length h)"

text \<open>
  \<open>Array.prototype.sort(compareFn)\<close> sorts the array in place and returns the same
  reference. The sort is stable (ECMAScript 2019); with a comparator that orders
  consistently the result does not depend on the engine's algorithm. The model inserts each
  element, from the last to the first, in front of the first element it does not exceed.
\<close>

fun insort_by :: "('a \<Rightarrow> 'a \<Rightarrow> real) \<Rightarrow> 'a \<Rightarrow> 'a list \<Rightarrow> 'a list" where
  "insort_by compareFn x [] = [x]"
| "insort_by compareFn x (y # ys) =
     (if compareFn x y \<le> 0 then x # y # ys else y # insort_by compareFn x ys)"

definition sort_by :: "('a \<Rightarrow> 'a \<Rightarrow> real) \<Rightarrow> 'a list \<Rightarrow> 'a list" where
  "sort_by compareFn xs = foldr (insort_by compareFn) xs []"

definition Array_sort ::
    "heap \<Rightarrow> ref \<Rightarrow> (FilterConfig \<Rightarrow> FilterConfig \<Rightarrow> real) \<Rightarrow> heap \<times> ref" where
  "Array_sort h r compareFn = (h[r := sort_by compareFn (array_at h r)], r)"

text \<open>\<open>a.forEach(f)\<close>, with the variables the callback assigns as the state.\<close>

definition forEach :: "'a list \<Rightarrow> ('a \<Rightarrow> 's \<Rightarrow> 's) \<Rightarrow> 's \<Rightarrow> 's" where
  "forEach xs f s = fold f xs s"

section \<open>The Web Audio objects the component drives\<close>

text \<open>
  The audio graph lives in the browser, not in the repository. The part of the Web Audio
  API that \<open>processAudio\<close> calls is modelled after the W3C recommendation: an
  \<open>OfflineAudioContext\<close> owns its nodes (a node is its index, the destination is node 0) and
  the connections made between them; rendering pulls the destination's input through the
  graph. What the recommendation leaves to the implementation, or what is signal processing
  inside the browser, is a parameter of the model: the nominal ranges the constructor
  accepts, the transfer function of a \<open>BiquadFilterNode\<close> on the samples of one channel,
  the mixing of several or mismatched inputs, resampling, and the decoder.
\<close>

record BiquadFilterNode =
  filter_type :: FilterType
  frequency :: real
  filter_gain :: real
  filter_Q :: real

datatype AudioNode =
    Destination
  | BufferSource "AudioBuffer option" bool
  | Biquad BiquadFilterNode

record OfflineAudioContext =
  ctx_numberOfChannels :: nat
  ctx_length :: nat
  ctx_sampleRate :: real
  nodes :: "AudioNode list"
  connections :: "(nat \<times> nat) list"

record platform =
  nominal :: "nat \<Rightarrow> nat \<Rightarrow> real \<Rightarrow> bool"
  biquad :: "BiquadFilterNode \<Rightarrow> real \<Rightarrow> number list \<Rightarrow> number list"
  mix :: "nat \<Rightarrow> number list list list \<Rightarrow> number list list"
  resample :: "AudioBuffer \<Rightarrow> real \<Rightarrow> nat \<Rightarrow> number list list"
  decodeAudioData :: "8 word list \<Rightarrow> error + AudioBuffer"

text \<open>
  \<open>new OfflineAudioContext(numberOfChannels, length, sampleRate)\<close> throws
  \<open>NotSupportedError\<close> when an argument is zero, negative or outside its nominal range.
\<close>

definition new_OfflineAudioContext ::
    "platform \<Rightarrow> nat \<Rightarrow> nat \<Rightarrow> real \<Rightarrow> error + OfflineAudioContext" where
  "new_OfflineAudioContext P n len rate =
     (if n = 0 \<or> len = 0 \<or> rate \<le> 0 \<or> \<not> nominal P n len rate
      then Inl NotSupportedError
      else Inr \<lparr>ctx_numberOfChannels = n, ctx_length = len,
                ctx_sampleRate = rate, nodes = [Destination], connections = []\<rparr>)"

definition destination :: nat where
  "destination = 0"

definition update_node ::
    "OfflineAudioContext \<Rightarrow> nat \<Rightarrow> (AudioNode \<Rightarrow> AudioNode) \<Rightarrow> OfflineAudioContext" where
  "update_node c n f =
     (if n < length (nodes c) then c\<lparr>nodes := (nodes c)[n := f (nodes c ! n)]\<rparr> else c)"

definition createBufferSource :: "OfflineAudioContext \<Rightarrow> OfflineAudioContext \<times> nat" where
  "createBufferSource c = (c\<lparr>nodes := nodes c @ [BufferSource None False]\<rparr>, length (nodes c))"

definition set_buffer :: "OfflineAudioContext \<Rightarrow> nat \<Rightarrow> AudioBuffer \<Rightarrow> OfflineAudioContext" where
  "set_buffer c n b =
     update_node c n (\<lambda>x. case x of BufferSource _ s \<Rightarrow> BufferSource (Some b) s | y \<Rightarrow> y)"

definition start :: "OfflineAudioContext \<Rightarrow> nat \<Rightarrow> OfflineAudioContext" where
  "start c n = update_node c n (\<lambda>x. case x of BufferSource b _ \<Rightarrow> BufferSource b True | y \<Rightarrow> y)"

text \<open>A new \<open>BiquadFilterNode\<close> is a lowpass at 350 Hz with Q 1 and gain 0.\<close>

definition default_biquad :: BiquadFilterNode where
  "default_biquad = \<lparr>filter_type = lowpass, frequency = 350, filter_gain = 0, filter_Q = 1\<rparr>"

definition createBiquadFilter :: "OfflineAudioContext \<Rightarrow> OfflineAudioContext \<times> nat" where
  "createBiquadFilter c = (c\<lparr>nodes := nodes c @ [Biquad default_biquad]\<rparr>, length (nodes c))"

definition update_biquad ::
    "OfflineAudioContext \<Rightarrow> nat \<Rightarrow> (BiquadFilterNode \<Rightarrow> BiquadFilterNode) \<Rightarrow> OfflineAudioContext" where
  "update_biquad c n g = update_node c n (\<lambda>x. case x of Biquad f \<Rightarrow> Biquad (g f) | y \<Rightarrow> y)"

definition connect :: "OfflineAudioContext \<Rightarrow> nat \<Rightarrow> nat \<Rightarrow> OfflineAudioContext" where
  "connect c a b = c\<lparr>connections := connections c @ [(a, b)]\<rparr>"

text \<open>
  Rendering. The input of a node is the mix of the outputs connected to it; a single
  connection that already has the channel count of the input is passed through. A started
  buffer source plays its buffer from frame 0 for the length of the rendering, silence
  after the buffer's end; a biquad node filters every channel of its input on its own. The
  pull is bounded by the number of nodes, which is enough for every path of an acyclic graph.
\<close>

definition silence :: "OfflineAudioContext \<Rightarrow> number list list" where
  "silence c = [replicate (ctx_length c) (Finite 0)]"

definition fit :: "nat \<Rightarrow> number list \<Rightarrow> number list" where
  "fit n xs = take n xs @ replicate (n - length xs) (Finite 0)"

definition inputs :: "OfflineAudioContext \<Rightarrow> nat \<Rightarrow> nat list" where
  "inputs c n = map fst (filter (\<lambda>e. snd e = n) (connections c))"

definition bus :: "platform \<Rightarrow> nat \<Rightarrow> number list list list \<Rightarrow> number list list" where
  "bus P n ins = (case ins of [x] \<Rightarrow> if length x = n then x else mix P n ins | _ \<Rightarrow> mix P n ins)"

definition max_channels :: "number list list list \<Rightarrow> nat" where
  "max_channels ins = foldr max (map length ins) 1"

definition play :: "platform \<Rightarrow> OfflineAudioContext \<Rightarrow> AudioBuffer \<Rightarrow> number list list" where
  "play P c buf =
     (if sampleRate buf = ctx_sampleRate c then map (fit (ctx_length c)) (channels buf)
      else resample P buf (ctx_sampleRate c) (ctx_length c))"

fun pull :: "platform \<Rightarrow> OfflineAudioContext \<Rightarrow> nat \<Rightarrow> nat \<Rightarrow> number list list" where
  "pull P c 0 n = silence c"
| "pull P c (Suc fuel) n =
     (if length (nodes c) \<le> n then silence c
      else (case nodes c ! n of
              Destination \<Rightarrow> bus P (ctx_numberOfChannels c) (map (pull P c fuel) (inputs c n))
            | BufferSource b started \<Rightarrow>
                (case b of Some buf \<Rightarrow> if started then play P c buf else silence c
                 | None \<Rightarrow> silence c)
            | Biquad f \<Rightarrow>
                (let ins = map (pull P c fuel) (inputs c n)
                 in map (biquad P f (ctx_sampleRate c)) (bus P (max_channels ins) ins))))"

definition startRendering :: "platform \<Rightarrow> OfflineAudioContext \<Rightarrow> AudioBuffer" where
  "startRendering P c =
     \<lparr>sampleRate = ctx_sampleRate c, length' = ctx_length c,
      channels = pull P c (length (nodes c)) destination\<rparr>"

section \<open>The component: \<open>createFilter\<close>, \<open>processAudio\<close>, \<open>handleDrop\<close>\<close>

definition createFilter :: "OfflineAudioContext \<Rightarrow> FilterConfig \<Rightarrow> OfflineAudioContext \<times> nat" where
  "createFilter ctx config =
     (let (ctx, filter) = createBiquadFilter ctx;
          ctx = update_biquad ctx filter (\<lambda>f. f\<lparr>filter_type := type config\<rparr>);
          ctx = update_biquad ctx filter (\<lambda>f. f\<lparr>frequency := freq config\<rparr>);
          ctx = update_biquad ctx filter (\<lambda>f. f\<lparr>filter_gain := gain config\<rparr>);
          ctx = (case Q config of
                   Some q \<Rightarrow> update_biquad ctx filter (\<lambda>f. f\<lparr>filter_Q := q\<rparr>)
                 | None \<Rightarrow> ctx)
      in (ctx, filter))"

definition processAudio :: "platform \<Rightarrow> heap \<Rightarrow> AudioBuffer \<Rightarrow> heap \<times> (error + AudioBuffer)" where
  "processAudio P h audioBuffer =
     (case new_OfflineAudioContext P (numberOfChannels audioBuffer) (length' audioBuffer)
             (sampleRate audioBuffer) of
        Inl e \<Rightarrow> (h, Inl e)
      | Inr offlineCtx \<Rightarrow>
          (let (offlineCtx, source) = createBufferSource offlineCtx;
               offlineCtx = set_buffer offlineCtx source audioBuffer;
               (h, copy) = spread h filters_ref;
               (h, sortedFilters) = Array_sort h copy (\<lambda>a b. freq a - freq b);
               (offlineCtx, currentNode) =
                  forEach (array_at h sortedFilters)
                    (\<lambda>filterConfig (offlineCtx, currentNode).
                       (let (offlineCtx, filter) = createFilter offlineCtx filterConfig;
                            offlineCtx = connect offlineCtx currentNode filter
                        in (offlineCtx, filter)))
                    (offlineCtx, source);
               offlineCtx = connect offlineCtx currentNode destination;
               offlineCtx = start offlineCtx source
           in (h, Inr (startRendering P offlineCtx))))"

definition MAX_FILE_SIZE :: nat where
  "MAX_FILE_SIZE = 1024 * 1024 * 1024"

definition SUPPORTED_AUDIO_TYPES :: "string list" where
  "SUPPORTED_AUDIO_TYPES =
     [''audio/wav'', ''audio/mpeg'', ''audio/mp3'', ''audio/ogg'', ''audio/aac'', ''audio/m4a'',
      ''audio/x-m4a'', ''audio/mp4'', ''audio/webm'', ''audio/flac'']"

record File =
  name :: string
  file_type :: string
  size' :: nat
  bytes :: "8 word list"

record ui_state =
  isDragging :: bool
  fileName :: string
  isProcessing :: bool
  error :: string

record download =
  blob :: "8 word list"
  blob_type :: string
  download_name :: string

text \<open>\<open>s.lastIndexOf(c)\<close> for a one-character search string, and \<open>s.slice(a, b)\<close>.\<close>

fun lastIndexOf_below :: "string \<Rightarrow> char \<Rightarrow> nat \<Rightarrow> int" where
  "lastIndexOf_below s c 0 = - 1"
| "lastIndexOf_below s c (Suc k) = (if s ! k = c then int k else lastIndexOf_below s c k)"

definition lastIndexOf :: "string \<Rightarrow> char \<Rightarrow> int" where
  "lastIndexOf s c = lastIndexOf_below s c (length s)"

definition slice :: "string \<Rightarrow> int \<Rightarrow> int \<Rightarrow> string" where
  "slice s a b =
     (let n = int (length s);
          from = (if a < 0 then max (n + a) 0 else min a n);
          to = (if b < 0 then max (n + b) 0 else min b n)
      in take (nat (to - from)) (drop (nat from) s))"

text \<open>Lines 115 to 118: the name offered for the download.\<close>

definition newFileName :: "string \<Rightarrow> string" where
  "newFileName file_name =
     (let lastDotIndex = lastIndexOf file_name CHR ''.''
      in if lastDotIndex \<noteq> - 1
         then slice file_name 0 lastDotIndex @ ''-EQ''
              @ slice file_name lastDotIndex (int (length file_name))
         else file_name @ ''-EQ'')"

text \<open>
  The \<open>try\<close> block of \<open>handleDrop\<close>: decode, render, encode, offer the download. Whatever is
  thrown on the way is caught and shown as one message; \<open>finally\<close> clears the progress flag.
  Reading the bytes of the file and creating the \<open>AudioContext\<close> that decodes them are
  taken to succeed; the decoder itself may fail.
\<close>

definition process_file ::
    "platform \<Rightarrow> heap \<Rightarrow> ui_state \<Rightarrow> File \<Rightarrow> heap \<times> ui_state \<times> download option" where
  "process_file P h s file =
     (let failed = s\<lparr>isProcessing := False,
            error := ''Error processing audio file. Make sure the file is a valid audio format.''\<rparr>
      in case decodeAudioData P (bytes file) of
           Inl e \<Rightarrow> (h, failed, None)
         | Inr audioBuffer \<Rightarrow>
             (case processAudio P h audioBuffer of
                (h, Inl e) \<Rightarrow> (h, failed, None)
              | (h, Inr processedBuffer) \<Rightarrow>
                  (case audioBufferToWav processedBuffer of
                     Inl e \<Rightarrow> (h, failed, None)
                   | Inr wav \<Rightarrow>
                       (h, s\<lparr>isProcessing := False\<rparr>,
                        Some \<lparr>blob = wav, blob_type = file_type file,
                              download_name = newFileName (name file)\<rparr>))))"

definition handleDrop ::
    "platform \<Rightarrow> heap \<Rightarrow> ui_state \<Rightarrow> File list \<Rightarrow> heap \<times> ui_state \<times> download option" where
  "handleDrop P h s files =
     (let s = s\<lparr>isDragging := False, error := ''''\<rparr>
      in case files of
           [] \<Rightarrow> (h, s, None)
         | file # _ \<Rightarrow>
             if file_type file \<notin> set SUPPORTED_AUDIO_TYPES
             then (h, s\<lparr>error := ''Unsupported file type. Please use a standard audio format (WAV, MP3, OGG, AAC, M4A, FLAC)''\<rparr>, None)
             else if size' file > MAX_FILE_SIZE
             then (h, s\<lparr>error := ''File size must be less than 1GB''\<rparr>, None)
             else process_file P h (s\<lparr>fileName := name file, isProcessing := True\<rparr>) file)"

section \<open>The properties, in the words of the specification\<close>

text \<open>
  The 16-bit value of a sample as the specification describes it: clamp to \<open>[-1, 1]\<close>, scale
  negative values by 32768 and the others by 32767, keep the integer part (the digits before
  the point, so towards zero).
\<close>

definition clamp_unit :: "real \<Rightarrow> real" where
  "clamp_unit s = max (- 1) (min 1 s)"

definition spec_pcm16 :: "real \<Rightarrow> int" where
  "spec_pcm16 s =
     (let c = clamp_unit s
      in if c < 0 then - \<lfloor>- (c * 32768)\<rfloor> else \<lfloor>c * 32767\<rfloor>)"

text \<open>
  The \<open>n\<close> bytes of an integer field in little-endian order, by division: the low byte
  first. A negative value appears in two's complement.
\<close>

fun le_bytes :: "nat \<Rightarrow> int \<Rightarrow> 8 word list" where
  "le_bytes 0 v = []"
| "le_bytes (Suc k) v = word_of_int (v mod 256) # le_bytes k (v div 256)"

definition ascii :: "string \<Rightarrow> 8 word list" where
  "ascii s = map of_char s"

text \<open>
  The 44 header bytes of section 4.4. The sample rate is a float attribute of the buffer;
  a \<open>u32\<close> field holds the integer part of what is stored in it.
\<close>

definition wav_header :: "nat \<Rightarrow> real \<Rightarrow> nat \<Rightarrow> 8 word list" where
  "wav_header channelCount rate frameCount =
     (let blockAlign = channelCount * 2; dataBytes = frameCount * blockAlign
      in ascii ''RIFF'' @ le_bytes 4 (int (36 + dataBytes)) @ ascii ''WAVE''
         @ ascii ''fmt '' @ le_bytes 4 16 @ le_bytes 2 1 @ le_bytes 2 (int channelCount)
         @ le_bytes 4 (trunc rate) @ le_bytes 4 (trunc (rate * real blockAlign))
         @ le_bytes 2 (int blockAlign) @ le_bytes 2 16
         @ ascii ''data'' @ le_bytes 4 (int dataBytes))"

text \<open>The two bytes of the sample of frame \<open>i\<close> and channel \<open>c\<close>, low byte first.\<close>

definition sample_bytes :: "AudioBuffer \<Rightarrow> nat \<Rightarrow> nat \<Rightarrow> 8 word list" where
  "sample_bytes b i c = le_bytes 2 (sint (ToInt16 (int16_of_sample (channels b ! c ! i))))"

text \<open>
  The filter stage a configuration entry stands for, and the cascade of a list of stages on
  the samples of one channel: each stage takes the whole output of the one before it.
\<close>

definition stage_of :: "FilterConfig \<Rightarrow> BiquadFilterNode" where
  "stage_of config =
     \<lparr>filter_type = type config, frequency = freq config, filter_gain = gain config,
      filter_Q = (case Q config of Some q \<Rightarrow> q | None \<Rightarrow> filter_Q default_biquad)\<rparr>"

definition cascade :: "platform \<Rightarrow> real \<Rightarrow> FilterConfig list \<Rightarrow> number list \<Rightarrow> number list" where
  "cascade P rate stages xs = fold (\<lambda>config ys. biquad P (stage_of config) rate ys) stages xs"

section \<open>Auxiliary notions for the proofs\<close>

text \<open>A view whose first bytes are written and whose remaining \<open>k\<close> bytes are still zero.\<close>

definition hdr :: "8 word list \<Rightarrow> nat \<Rightarrow> 8 word list" where
  "hdr H k = H @ replicate k 0"

text \<open>The byte offset of the sample of frame \<open>i\<close> and channel \<open>c\<close>.\<close>

definition pos :: "nat \<Rightarrow> nat \<Rightarrow> nat \<Rightarrow> nat" where
  "pos nch i c = 44 + 2 * (i * nch + c)"

definition pcm_bytes :: "number \<Rightarrow> 8 word list" where
  "pcm_bytes x = bytes16 True (ToInt16 (int16_of_sample x))"

text \<open>
  The graph \<open>processAudio\<close> builds: the callback of its \<open>forEach\<close>, the connections of a
  chain that starts at node \<open>cur\<close> and continues with the nodes \<open>n\<close>, \<open>n + 1\<close>, ..., and the
  finished graph of a source, one filter node for each configuration, and the destination.
\<close>

fun chain_edges :: "nat \<Rightarrow> nat \<Rightarrow> nat \<Rightarrow> (nat \<times> nat) list" where
  "chain_edges cur n 0 = []"
| "chain_edges cur n (Suc k) = (cur, n) # chain_edges n (Suc n) k"

definition chain_step :: "FilterConfig \<Rightarrow> OfflineAudioContext \<times> nat \<Rightarrow> OfflineAudioContext \<times> nat" where
  "chain_step = (\<lambda>filterConfig (offlineCtx, currentNode).
                       (let (offlineCtx, filter) = createFilter offlineCtx filterConfig;
                            offlineCtx = connect offlineCtx currentNode filter
                        in (offlineCtx, filter)))"

definition chain_graph ::
    "nat \<Rightarrow> nat \<Rightarrow> AudioBuffer \<Rightarrow> FilterConfig list \<Rightarrow> OfflineAudioContext" where
  "chain_graph n len b configs =
     \<lparr>ctx_numberOfChannels = n, ctx_length = len, ctx_sampleRate = sampleRate b,
      nodes = [Destination, BufferSource (Some b) True] @ map (\<lambda>config. Biquad (stage_of config)) configs,
      connections = chain_edges 1 2 (length configs) @ [(Suc (length configs), 0)]\<rparr>"

text \<open>A sequence of renderings, and a sequence of drops on the component, one after the other.\<close>

definition runs :: "platform \<Rightarrow> AudioBuffer list \<Rightarrow> heap \<Rightarrow> heap" where
  "runs P bs h = fold (\<lambda>b h. fst (processAudio P h b)) bs h"

definition drops :: "platform \<Rightarrow> File list list \<Rightarrow> heap \<times> ui_state \<Rightarrow> heap \<times> ui_state" where
  "drops P ds st =
     fold (\<lambda>files (h, s). (fst (handleDrop P h s files), fst (snd (handleDrop P h s files)))) ds st"

section \<open>Concrete inputs for evaluation\<close>

text \<open>
  A small platform to run the model on: it accepts up to 32 channels at 3 kHz to 768 kHz,
  decodes a file as raw signed 8-bit mono at 8 kHz, and its filter stage is a plain gain by
  the stage's frequency setting (enough to make the order of the stages visible).
\<close>

definition toy_platform :: platform where
  "toy_platform =
     \<lparr>nominal = (\<lambda>n len rate. n \<le> 32 \<and> 3000 \<le> rate \<and> rate \<le> 768000),
      biquad = (\<lambda>f rate xs. map (\<lambda>x. times_number x (Finite (frequency f))) xs),
      mix = (\<lambda>n ins. replicate n []),
      resample = (\<lambda>buf rate len. map (\<lambda>ch. replicate len (Finite 0)) (channels buf)),
      decodeAudioData = (\<lambda>bs. Inr \<lparr>sampleRate = 8000, length' = length bs,
                                     channels = [map (\<lambda>b. Finite (real_of_int (sint b) / 128)) bs]\<rparr>)\<rparr>"

definition stereo_buffer :: AudioBuffer where
  "stereo_buffer =
     \<lparr>sampleRate = 44100, length' = 2,
      channels = [[Finite 0.5, Finite (- 1)], [Finite 1.5, Finite 0]]\<rparr>"


definition empty_buffer :: AudioBuffer where
  "empty_buffer = \<lparr>sampleRate = 44100, length' = 0, channels = [[], []]\<rparr>"

definition empty_file :: File where
  "empty_file = \<lparr>name = ''silence.wav'', file_type = ''audio/wav'', size' = 0, bytes = []\<rparr>"

definition big_file :: File where
  "big_file = \<lparr>name = ''concert.flac'', file_type = ''audio/flac'', size' = 1073741825, bytes = []\<rparr>"

definition limit_file :: File where
  "limit_file = \<lparr>name = ''concert.flac'', file_type = ''audio/flac'', size' = 1073741824, bytes = []\<rparr>"

definition idle :: ui_state where
  "idle = \<lparr>isDragging = True, fileName = '''', isProcessing = False, error = ''''\<rparr>"

definition text_file :: File where
  "text_file = \<lparr>name = ''notes.txt'', file_type = ''text/plain'', size' = 1, bytes = [0]\<rparr>"

definition song_file :: File where
  "song_file = \<lparr>name = ''my.song.mp3'', file_type = ''audio/mpeg'', size' = 2, bytes = [64, 128]\<rparr>"

definition plain_file :: File where
  "plain_file = \<lparr>name = ''song'', file_type = ''audio/wav'', size' = 2, bytes = [64, 128]\<rparr>"

definition decoded_song :: AudioBuffer where
  "decoded_song = \<lparr>sampleRate = 8000, length' = 2, channels = [[Finite 0.5, Finite (- 1)]]\<rparr>"

section \<open>The encoder: sample values, header, size and layout\<close>

subsection \<open>The value of a sample\<close>

lemma bind_e_simps [simp]:
  "bind_e (Inr a) f = f a"
  "bind_e (Inl e) f = Inl e"
  by (simp_all add: bind_e_def)

lemma int16_of_sample_Finite:
  "int16_of_sample (Finite s) =
     Finite (if clamp_unit s < 0 then clamp_unit s * 32768 else clamp_unit s * 32767)"
  by (simp add: int16_of_sample_def Math_min_def Math_max_def clamp_unit_def Let_def max_def min_def)

lemma trunc_bounds:
  assumes "- 32768 \<le> y" "y \<le> 32767"
  shows "- 32768 \<le> trunc y \<and> trunc y \<le> 32767"
  using assms unfolding trunc_def by (auto simp: le_floor_iff ceiling_le_iff floor_le_iff le_ceiling_iff)

lemma sint_ToInt16:
  assumes "- 32768 \<le> y" "y \<le> 32767"
  shows "sint (ToInt16 (Finite y)) = trunc y"
proof -
  have "- 32768 \<le> trunc y \<and> trunc y \<le> 32767" using assms by (rule trunc_bounds)
  then show ?thesis
    by (simp add: ToInt16_def sint_sbintrunc' signed_take_bit_int_eq_self)
qed

lemma scaled_range:
  "- 32768 \<le> (if clamp_unit s < 0 then clamp_unit s * 32768 else clamp_unit s * 32767)"
  "(if clamp_unit s < 0 then clamp_unit s * 32768 else clamp_unit s * 32767) \<le> 32767"
  by (auto simp: clamp_unit_def max_def min_def)

subsection \<open>Loops and byte stores\<close>

lemma for_loop_rule:
  assumes "I i s" and "i \<le> n"
    and step: "\<And>j t. i \<le> j \<Longrightarrow> j < n \<Longrightarrow> I j t \<Longrightarrow> \<exists>t'. body j t = Inr t' \<and> I (Suc j) t'"
  shows "\<exists>t. for_loop i n body s = Inr t \<and> I n t"
  using assms
proof (induction "n - i" arbitrary: i s)
  case 0
  then have "i = n" by simp
  with 0 show ?case by (simp add: for_loop.simps)
next
  case (Suc k)
  then have lt: "i < n" by simp
  from Suc.prems(3)[of i s] lt Suc.prems(1)
  obtain t' where t': "body i s = Inr t'" "I (Suc i) t'" by auto
  have "\<exists>t. for_loop (Suc i) n body t' = Inr t \<and> I n t"
  proof (rule Suc.hyps(1))
    show "k = n - Suc i" using Suc.hyps(2) by simp
    show "I (Suc i) t'" by (rule t')
    show "Suc i \<le> n" using lt by simp
    show "\<And>j t. Suc i \<le> j \<Longrightarrow> j < n \<Longrightarrow> I j t \<Longrightarrow> \<exists>t'. body j t = Inr t' \<and> I (Suc j) t'"
      using Suc.prems(3) by simp
  qed
  then show ?case using lt t' by (subst for_loop.simps) simp
qed

lemma ToIntegral_num: "ToIntegral (num n) = int n"
  by (simp add: num_def trunc_def)

lemma word_of_char: "word_of_nat (of_char c) = (of_char c :: 8 word)"
  by (rule of_nat_of_char)

lemma store_Inr:
  "byteOffset + length bs \<le> length view \<Longrightarrow>
   store view byteOffset bs = Inr (take byteOffset view @ bs @ drop (byteOffset + length bs) view)"
  by (simp add: store_def)

lemma store_hdr:
  "length H = off \<Longrightarrow> length bs \<le> k \<Longrightarrow> store (hdr H k) off bs = Inr (hdr (H @ bs) (k - length bs))"
  by (simp add: store_def hdr_def)

lemma writeString_hdr:
  assumes "length H = off" "length s \<le> k"
  shows "writeString (hdr H k) off s = Inr (hdr (H @ map of_char s) (k - length s))"
proof -
  define I where "I = (\<lambda>j v. v = hdr (H @ map of_char (take j s)) (k - j))"
  have "\<exists>t. for_loop 0 (length s) (\<lambda>i v. setUint8 v (off + i) (charCodeAt s i)) (hdr H k) = Inr t \<and> I (length s) t"
  proof (rule for_loop_rule)
    show "I 0 (hdr H k)" by (simp add: I_def)
    show "0 \<le> length s" by simp
    fix j t assume j: "j < length s" and "I j t"
    then have t: "t = hdr (H @ map of_char (take j s)) (k - j)" by (simp add: I_def)
    have "ToUint8 (charCodeAt s j) = of_char (s ! j)"
      using j by (simp add: ToUint8_def charCodeAt_def ToIntegral_num word_of_char)
    then have "setUint8 t (off + j) (charCodeAt s j) = Inr (hdr ((H @ map of_char (take j s)) @ [of_char (s ! j)]) (k - j - 1))"
      unfolding setUint8_def t using assms j
      by (simp add: store_hdr)
    then show "\<exists>t'. setUint8 t (off + j) (charCodeAt s j) = Inr t' \<and> I (Suc j) t'"
      using j by (simp add: I_def take_Suc_conv_app_nth)
  qed
  then show ?thesis by (simp add: writeString_def I_def)
qed

lemma store2_nth:
  assumes "off + 2 \<le> length v"
  shows "\<exists>v'. store v off [a, b] = Inr v' \<and> length v' = length v \<and> v' ! off = a \<and> v' ! Suc off = b \<and>
           (\<forall>p. p < length v \<longrightarrow> p \<noteq> off \<longrightarrow> p \<noteq> Suc off \<longrightarrow> v' ! p = v ! p)"
proof -
  let ?v' = "take off v @ [a, b] @ drop (off + 2) v"
  have s: "store v off [a, b] = Inr ?v'" using assms by (simp add: store_def)
  have l: "length ?v' = length v" using assms by simp
  have a: "?v' ! off = a" using assms by (simp add: nth_append)
  have b: "?v' ! Suc off = b" using assms by (simp add: nth_append)
  have o: "?v' ! p = v ! p" if "p < length v" "p \<noteq> off" "p \<noteq> Suc off" for p
  proof (cases "p < off")
    case True
    then show ?thesis using assms by (simp add: nth_append)
  next
    case False
    with that have p: "off + 2 \<le> p" by simp
    then obtain q where q: "p = off + 2 + q" using le_Suc_ex by blast
    have "?v' ! p = (drop (off + 2) v) ! q"
      using assms unfolding q by (simp add: nth_append)
    also have "\<dots> = v ! p" using that(1) unfolding q by simp
    finally show ?thesis .
  qed
  show ?thesis using s l a b o by blast
qed

lemma index_inj:
  assumes "c < nch" "c' < nch" "i * nch + c = i' * nch + c'"
  shows "i = i' \<and> c = (c'::nat)"
proof -
  have "(i * nch + c) div nch = i" "(i * nch + c) mod nch = c" using assms(1) by simp_all
  moreover have "(i' * nch + c') div nch = i'" "(i' * nch + c') mod nch = c'" using assms(2) by simp_all
  ultimately show ?thesis using assms(3) by metis
qed

lemma pos_distinct:
  assumes "c < nch" "c' < nch" "i \<noteq> i' \<or> c \<noteq> c'"
  shows "pos nch i c \<noteq> pos nch i' c'" "pos nch i c \<noteq> Suc (pos nch i' c')" "Suc (pos nch i c) \<noteq> pos nch i' c'"
proof -
  have ne: "i * nch + c \<noteq> i' * nch + c'" using index_inj[OF assms(1,2)] assms(3) by blast
  show "pos nch i c \<noteq> pos nch i' c'" using ne by (simp add: pos_def)
  show "pos nch i c \<noteq> Suc (pos nch i' c')" unfolding pos_def by presburger
  show "Suc (pos nch i c) \<noteq> pos nch i' c'" unfolding pos_def by presburger
qed

lemma pos_bound:
  assumes "i < L" "c < nch"
  shows "pos nch i c + 2 \<le> 44 + 2 * (L * nch)"
proof -
  have "i * nch + c < Suc i * nch" using assms(2) by simp
  also have "\<dots> \<le> L * nch" using assms(1) by (intro mult_le_mono1) simp
  finally show ?thesis by (simp add: pos_def)
qed

lemma pos_ge: "44 \<le> pos nch i c" by (simp add: pos_def)

subsection \<open>Little-endian fields\<close>

lemma ucast_drop_bit_word_of_int:
  "n + 8 \<le> LENGTH('a::len) \<Longrightarrow>
   (ucast (drop_bit n (word_of_int k :: 'a word)) :: 8 word) = word_of_int (k div 2 ^ n mod 256)"
  by (rule bit_word_eqI) (auto simp: bit_simps simp flip: drop_bit_eq_div take_bit_eq_mod[of 8, simplified])

lemma le_bytes_4:
  "le_bytes 4 k = [word_of_int (k mod 256), word_of_int (k div 256 mod 256),
     word_of_int (k div 65536 mod 256), word_of_int (k div 16777216 mod 256)]"
proof -
  have a: "k div 256 div 256 = k div 65536" by (simp add: zdiv_zmult2_eq[symmetric])
  have b: "k div 65536 div 256 = k div 16777216" by (simp add: zdiv_zmult2_eq[symmetric])
  have "le_bytes (Suc (Suc (Suc (Suc 0)))) k = [word_of_int (k mod 256), word_of_int (k div 256 mod 256),
     word_of_int (k div 65536 mod 256), word_of_int (k div 16777216 mod 256)]"
    by (simp add: a b)
  then show ?thesis by (simp add: numeral_eq_Suc)
qed

lemma le_bytes_2:
  "le_bytes 2 k = [word_of_int (k mod 256), word_of_int (k div 256 mod 256)]"
proof -
  have "le_bytes (Suc (Suc 0)) k = [word_of_int (k mod 256), word_of_int (k div 256 mod 256)]"
    by simp
  then show ?thesis by (simp add: numeral_eq_Suc)
qed

lemma bytes32_le: "bytes32 True (word_of_int k) = le_bytes 4 k"
  using ucast_drop_bit_word_of_int[of 0 k, where 'a=32] ucast_drop_bit_word_of_int[of 8 k, where 'a=32]
    ucast_drop_bit_word_of_int[of 16 k, where 'a=32] ucast_drop_bit_word_of_int[of 24 k, where 'a=32]
  by (simp add: bytes32_def le_bytes_4)

lemma bytes16_le: "bytes16 True (word_of_int k) = le_bytes 2 k"
  using ucast_drop_bit_word_of_int[of 0 k, where 'a=16] ucast_drop_bit_word_of_int[of 8 k, where 'a=16]
  by (simp add: bytes16_def le_bytes_2)

lemma bytes16_sint: "bytes16 True w = le_bytes 2 (sint w)"
  using bytes16_le[of "sint w"] by simp

lemma length_le_bytes [simp]: "length (le_bytes n k) = n"
  by (induction n arbitrary: k) simp_all

lemma length_ascii [simp]: "length (ascii s) = length s"
  by (simp add: ascii_def)

subsection \<open>The header\<close>

lemma writeString_hdr':
  "length H = off \<Longrightarrow> length s \<le> k \<Longrightarrow>
   writeString (hdr H k) off s = Inr (hdr (H @ ascii s) (k - length s))"
  by (simp add: writeString_hdr ascii_def)

lemma setUint32_hdr:
  "length H = off \<Longrightarrow> 4 \<le> k \<Longrightarrow>
   setUint32 (hdr H k) off x True = Inr (hdr (H @ le_bytes 4 (ToIntegral x)) (k - 4))"
  by (simp add: setUint32_def ToUint32_def bytes32_le store_hdr)

lemma setUint16_hdr:
  "length H = off \<Longrightarrow> 2 \<le> k \<Longrightarrow>
   setUint16 (hdr H k) off x True = Inr (hdr (H @ le_bytes 2 (ToIntegral x)) (k - 2))"
  by (simp add: setUint16_def ToUint16_def bytes16_le store_hdr)

lemma new_ArrayBuffer_hdr: "new_ArrayBuffer n = hdr [] n"
  by (simp add: new_ArrayBuffer_def hdr_def)

lemma audioBufferToWav_unfold:
  "audioBufferToWav b =
     write_data b 44 (numberOfChannels b * 2) 2
       (hdr (wav_header (numberOfChannels b) (sampleRate b) (length' b))
            (length' b * (numberOfChannels b * 2)))"
  by (simp add: audioBufferToWav_def Let_def new_ArrayBuffer_hdr writeString_hdr' setUint32_hdr
      setUint16_hdr ToIntegral_num wav_header_def)

lemma length_wav_header [simp]: "length (wav_header n r l) = 44"
  by (simp add: wav_header_def Let_def)

subsection \<open>The data section\<close>

lemma pcm_bytes_pair:
  "pcm_bytes x = [ucast (ToInt16 (int16_of_sample x)), ucast (drop_bit 8 (ToInt16 (int16_of_sample x)))]"
  by (simp add: pcm_bytes_def bytes16_def)

lemma setInt16_pos:
  assumes len: "length v = 44 + 2 * (L * nch)" and "i < L" "c < nch"
  shows "\<exists>v'. setInt16 v (44 + (i * (nch * 2)) + (c * 2)) (int16_of_sample x) True = Inr v' \<and>
           length v' = length v \<and>
           [v' ! pos nch i c, v' ! Suc (pos nch i c)] = pcm_bytes x \<and>
           (\<forall>p. p < length v \<longrightarrow> p \<noteq> pos nch i c \<longrightarrow> p \<noteq> Suc (pos nch i c) \<longrightarrow> v' ! p = v ! p)"
proof -
  have off: "44 + (i * (nch * 2)) + (c * 2) = pos nch i c" by (simp add: pos_def algebra_simps)
  have "pos nch i c + 2 \<le> length v" using pos_bound[OF assms(2,3)] len by simp
  from store2_nth[OF this]
  show ?thesis unfolding off setInt16_def pcm_bytes_pair bytes16_def Let_def by simp
qed

lemma write_channel_result:
  assumes len: "length v = 44 + 2 * (L * nch)" and c: "c < nch"
  shows "\<exists>v'. write_channel L 44 (nch * 2) 2 c cd v = Inr v' \<and> length v' = length v \<and>
     (\<forall>p<length v. (\<forall>i<L. p \<noteq> pos nch i c \<and> p \<noteq> Suc (pos nch i c)) \<longrightarrow> v' ! p = v ! p) \<and>
     (\<forall>i<L. [v' ! pos nch i c, v' ! Suc (pos nch i c)] = pcm_bytes (get_f32 cd i))"
proof -
  define I where "I = (\<lambda>j v'. length v' = length v \<and>
     (\<forall>p<length v. (\<forall>i<j. p \<noteq> pos nch i c \<and> p \<noteq> Suc (pos nch i c)) \<longrightarrow> v' ! p = v ! p) \<and>
     (\<forall>i<j. [v' ! pos nch i c, v' ! Suc (pos nch i c)] = pcm_bytes (get_f32 cd i)))"
  have "\<exists>t. for_loop 0 L (\<lambda>i v. setInt16 v (44 + (i * (nch * 2)) + (c * 2))
                 (int16_of_sample (get_f32 cd i)) True) v = Inr t \<and> I L t"
  proof (rule for_loop_rule)
    show "I 0 v" by (simp add: I_def)
    show "0 \<le> L" by simp
    fix j t assume j: "j < L" and Ij: "I j t"
    have lt: "length t = 44 + 2 * (L * nch)" using Ij len by (simp add: I_def)
    from setInt16_pos[OF lt j c, of "get_f32 cd j"]
    obtain t' where t': "setInt16 t (44 + (j * (nch * 2)) + (c * 2)) (int16_of_sample (get_f32 cd j)) True = Inr t'"
      "length t' = length t"
      "[t' ! pos nch j c, t' ! Suc (pos nch j c)] = pcm_bytes (get_f32 cd j)"
      "\<And>p. p < length t \<Longrightarrow> p \<noteq> pos nch j c \<Longrightarrow> p \<noteq> Suc (pos nch j c) \<Longrightarrow> t' ! p = t ! p"
      by blast
    have in_range: "pos nch i c < length t \<and> Suc (pos nch i c) < length t" if "i < L" for i
      using pos_bound[OF that c] lt by simp
    have old: "[t' ! pos nch i c, t' ! Suc (pos nch i c)] = pcm_bytes (get_f32 cd i)" if "i < j" for i
    proof -
      have iL: "i < L" using that j by simp
      have ne: "i \<noteq> j \<or> c \<noteq> c" using that by simp
      have "t' ! pos nch i c = t ! pos nch i c"
        using t'(4)[of "pos nch i c"] in_range[OF iL] pos_distinct[OF c c ne] by simp
      moreover have "t' ! Suc (pos nch i c) = t ! Suc (pos nch i c)"
        using t'(4)[of "Suc (pos nch i c)"] in_range[OF iL] pos_distinct[OF c c ne] by simp
      ultimately show ?thesis using Ij that by (simp add: I_def)
    qed
    have keep: "t' ! p = v ! p" if "p < length v" "\<forall>i<Suc j. p \<noteq> pos nch i c \<and> p \<noteq> Suc (pos nch i c)" for p
    proof -
      have "t' ! p = t ! p" using t'(4)[of p] that lt len by simp
      also have "t ! p = v ! p" using Ij that by (simp add: I_def)
      finally show ?thesis .
    qed
    have "I (Suc j) t'"
      unfolding I_def using t'(2,3) Ij old keep by (auto simp: I_def less_Suc_eq)
    with t'(1) show "\<exists>t'. setInt16 t (44 + (j * (nch * 2)) + (c * 2)) (int16_of_sample (get_f32 cd j)) True = Inr t' \<and> I (Suc j) t'"
      by blast
  qed
  then show ?thesis by (simp add: write_channel_def I_def)
qed

lemma copyFromChannel_result:
  assumes "c < numberOfChannels b"
  shows "\<exists>cd'. copyFromChannel b cd c = Inr cd' \<and> length cd' = length cd \<and>
           (length (channels b ! c) = length cd \<longrightarrow> cd' = channels b ! c)"
  using assms by (simp add: copyFromChannel_def Let_def)

lemma wf_buffer_nth:
  "wf_buffer b \<Longrightarrow> c < numberOfChannels b \<Longrightarrow> length (channels b ! c) = length' b"
  by (simp add: wf_buffer_def numberOfChannels_def list_all_length)

lemma write_data_result:
  assumes len: "length v = 44 + 2 * (length' b * numberOfChannels b)"
  shows "\<exists>v'. write_data b 44 (numberOfChannels b * 2) 2 v = Inr v' \<and> length v' = length v \<and>
     take 44 v' = take 44 v \<and>
     (wf_buffer b \<longrightarrow> (\<forall>c<numberOfChannels b. \<forall>i<length' b.
        [v' ! pos (numberOfChannels b) i c, v' ! Suc (pos (numberOfChannels b) i c)]
          = pcm_bytes (channels b ! c ! i)))"
proof -
  define nch where "nch = numberOfChannels b"
  define L where "L = length' b"
  define I where "I = (\<lambda>c (st :: DataView \<times> Float32Array).
     length (fst st) = length v \<and> length (snd st) = L \<and> (\<forall>p<44. fst st ! p = v ! p) \<and>
     (wf_buffer b \<longrightarrow> (\<forall>c'<c. \<forall>i<L.
        [fst st ! pos nch i c', fst st ! Suc (pos nch i c')] = pcm_bytes (channels b ! c' ! i))))"
  define body where "body = (\<lambda>channel (v, channelData).
             bind_e (copyFromChannel b channelData channel) (\<lambda>channelData'.
             bind_e (write_channel L 44 (nch * 2) 2 channel channelData' v) (\<lambda>v'.
             Inr (v', channelData'))))"
  have lenv: "length v = 44 + 2 * (L * nch)" using len by (simp add: nch_def L_def)
  have "\<exists>t. for_loop 0 nch body (v, new_Float32Array L) = Inr t \<and> I nch t"
  proof (rule for_loop_rule)
    show "I 0 (v, new_Float32Array L)" by (simp add: I_def new_Float32Array_def)
    show "0 \<le> nch" by simp
    fix c st assume c: "c < nch" and Ic: "I c st"
    obtain t cd where st: "st = (t, cd)" by (cases st)
    have lt: "length t = 44 + 2 * (L * nch)" and lcd: "length cd = L"
      and hd: "\<And>p. p < 44 \<Longrightarrow> t ! p = v ! p"
      and prev: "\<And>c' i. wf_buffer b \<Longrightarrow> c' < c \<Longrightarrow> i < L \<Longrightarrow>
        [t ! pos nch i c', t ! Suc (pos nch i c')] = pcm_bytes (channels b ! c' ! i)"
      using Ic lenv by (simp_all add: I_def st)
    from copyFromChannel_result[of c b cd] c
    obtain cd' where cd': "copyFromChannel b cd c = Inr cd'" "length cd' = length cd"
      "length (channels b ! c) = length cd \<longrightarrow> cd' = channels b ! c"
      by (auto simp: nch_def)
    from write_channel_result[OF lt c, of cd']
    obtain t' where t': "write_channel L 44 (nch * 2) 2 c cd' t = Inr t'" "length t' = length t"
      "\<And>p. p < length t \<Longrightarrow> (\<forall>i<L. p \<noteq> pos nch i c \<and> p \<noteq> Suc (pos nch i c)) \<Longrightarrow> t' ! p = t ! p"
      "\<And>i. i < L \<Longrightarrow> [t' ! pos nch i c, t' ! Suc (pos nch i c)] = pcm_bytes (get_f32 cd' i)"
      by blast
    have run: "body c st = Inr (t', cd')"
      by (simp add: body_def st cd' t')
    have hd': "t' ! p = v ! p" if "p < 44" for p
    proof -
      have "\<forall>i<L. p \<noteq> pos nch i c \<and> p \<noteq> Suc (pos nch i c)"
        using that pos_ge[of nch _ c] by (auto simp: pos_def)
      then have "t' ! p = t ! p" using t'(3)[of p] that lt by simp
      then show ?thesis using hd[OF that] by simp
    qed
    have new: "[t' ! pos nch i c', t' ! Suc (pos nch i c')] = pcm_bytes (channels b ! c' ! i)"
      if wf: "wf_buffer b" and c': "c' < Suc c" and i: "i < L" for c' i
    proof (cases "c' = c")
      case True
      have "length (channels b ! c) = L"
        using wf_buffer_nth[OF wf] c by (simp add: nch_def L_def)
      then have "cd' = channels b ! c" using cd'(3) lcd by simp
      then have "get_f32 cd' i = channels b ! c ! i"
        using i cd'(2) lcd by (simp add: get_f32_def)
      then show ?thesis using t'(4)[OF i] True by simp
    next
      case False
      then have c'c: "c' < c" using c' by simp
      then have c'n: "c' < nch" using c by simp
      have rng: "pos nch i c' < length t \<and> Suc (pos nch i c') < length t"
        using pos_bound[OF i c'n] lt by simp
      have d: "\<forall>j<L. pos nch i c' \<noteq> pos nch j c \<and> pos nch i c' \<noteq> Suc (pos nch j c)
                \<and> Suc (pos nch i c') \<noteq> pos nch j c"
        using pos_distinct[OF c'n c, of i] False by blast
      have "t' ! pos nch i c' = t ! pos nch i c'"
        using t'(3)[of "pos nch i c'"] rng d by simp
      moreover have "t' ! Suc (pos nch i c') = t ! Suc (pos nch i c')"
        using t'(3)[of "Suc (pos nch i c')"] rng d by simp
      ultimately show ?thesis using prev[OF wf c'c i] by simp
    qed
    have "I (Suc c) (t', cd')"
      unfolding I_def using t'(2) lt lenv cd'(2) lcd hd' new by simp
    with run show "\<exists>t'. body c st = Inr t' \<and> I (Suc c) t'" by blast
  qed
  then obtain t where t: "for_loop 0 nch body (v, new_Float32Array L) = Inr t" "I nch t" by blast
  have wd: "write_data b 44 (nch * 2) 2 v = Inr (fst t)"
    using t(1) unfolding write_data_def body_def nch_def L_def
    by (simp add: case_prod_beta)
  have tk: "take 44 (fst t) = take 44 v"
    using t(2) lenv by (intro nth_take_lemma) (simp_all add: I_def)
  show ?thesis
    using wd tk t(2) unfolding I_def nch_def L_def by simp
qed

subsection \<open>The encoder's result\<close>

lemma audioBufferToWav_result:
  "\<exists>wav. audioBufferToWav b = Inr wav \<and>
     length wav = 44 + length' b * numberOfChannels b * 2 \<and>
     take 44 wav = wav_header (numberOfChannels b) (sampleRate b) (length' b) \<and>
     (wf_buffer b \<longrightarrow> (\<forall>c<numberOfChannels b. \<forall>i<length' b.
        [wav ! pos (numberOfChannels b) i c, wav ! Suc (pos (numberOfChannels b) i c)]
          = pcm_bytes (channels b ! c ! i)))"
proof -
  let ?H = "wav_header (numberOfChannels b) (sampleRate b) (length' b)"
  let ?v = "hdr ?H (length' b * (numberOfChannels b * 2))"
  have len: "length ?v = 44 + 2 * (length' b * numberOfChannels b)"
    by (simp add: hdr_def)
  from write_data_result[OF len]
  obtain wav where wav: "write_data b 44 (numberOfChannels b * 2) 2 ?v = Inr wav"
    "length wav = length ?v" "take 44 wav = take 44 ?v"
    "wf_buffer b \<longrightarrow> (\<forall>c<numberOfChannels b. \<forall>i<length' b.
        [wav ! pos (numberOfChannels b) i c, wav ! Suc (pos (numberOfChannels b) i c)]
          = pcm_bytes (channels b ! c ! i))"
    by blast
  have "take 44 ?v = ?H" by (simp add: hdr_def)
  with wav len show ?thesis
    by (simp add: audioBufferToWav_unfold)
qed

lemma trunc_of_nat [simp]: "trunc (real n) = int n"
  by (simp add: trunc_def)

lemma wav_header_integral_rate:
  "wav_header n (real r) l =
     ascii ''RIFF'' @ le_bytes 4 (int (36 + l * (n * 2))) @ ascii ''WAVE''
     @ ascii ''fmt '' @ le_bytes 4 16 @ le_bytes 2 1 @ le_bytes 2 (int n)
     @ le_bytes 4 (int r) @ le_bytes 4 (int (r * (n * 2)))
     @ le_bytes 2 (int (n * 2)) @ le_bytes 2 16
     @ ascii ''data'' @ le_bytes 4 (int (l * (n * 2)))"
proof -
  have "real r * real (n * 2) = real (r * (n * 2))" by simp
  then have "trunc (real r * real (n * 2)) = int (r * (n * 2))"
    by (simp only: trunc_of_nat)
  then show ?thesis by (simp add: wav_header_def Let_def)
qed

lemma wav_header_example:
  "wav_header 2 44100 100 =
     [82, 73, 70, 70, 180, 1, 0, 0, 87, 65, 86, 69, 102, 109, 116, 32, 16, 0, 0, 0, 1, 0, 2, 0,
      68, 172, 0, 0, 16, 177, 2, 0, 4, 0, 16, 0, 100, 97, 116, 97, 144, 1, 0, 0]"
  using wav_header_integral_rate[of 2 44100 100]
  by (simp add: le_bytes_4 le_bytes_2 ascii_def)

lemma audioBufferToWav_example:
  assumes "numberOfChannels b = 2" and "length' b = 100" and "sampleRate b = 44100"
  shows "\<exists>wav. audioBufferToWav b = Inr wav \<and> length wav = 444 \<and>
     take 44 wav =
       [82, 73, 70, 70, 180, 1, 0, 0, 87, 65, 86, 69, 102, 109, 116, 32, 16, 0, 0, 0, 1, 0, 2, 0,
        68, 172, 0, 0, 16, 177, 2, 0, 4, 0, 16, 0, 100, 97, 116, 97, 144, 1, 0, 0]"
  using audioBufferToWav_result[of b] unfolding assms wav_header_example by auto

text \<open>
  C1. For every buffer the encoder returns a byte sequence (it never throws) of exactly
  \<open>44 + frameCount \<times> channelCount \<times> 2\<close> bytes, and its first 44 bytes are the header of
  section 4.4: \<open>RIFF\<close>, \<open>36 + dataBytes\<close>, \<open>WAVE\<close>, \<open>fmt \<close>, 16, 1, the channel count, the
  sample rate, the byte rate, the block alignment, 16, \<open>data\<close>, \<open>dataBytes\<close>, every number
  little-endian in its 2 or 4 bytes.
\<close>

theorem wav_size_and_header:
  "\<exists>wav. audioBufferToWav b = Inr wav \<and>
     length wav = 44 + length' b * numberOfChannels b * 2 \<and>
     take 44 wav = wav_header (numberOfChannels b) (sampleRate b) (length' b)"
  using audioBufferToWav_result[of b] by blast

lemma int16_of_sample_special:
  "int16_of_sample PosInfinity = Finite 32767"
  "int16_of_sample NegInfinity = Finite (- 32768)"
  "int16_of_sample NaN = NaN"
  by (simp_all add: int16_of_sample_def Math_min_def Math_max_def Let_def)

lemma ToInt16_NaN_sample: "ToInt16 (int16_of_sample NaN) = 0"
  by (simp add: int16_of_sample_special ToInt16_def)

lemma sint_pcm16: "sint (ToInt16 (int16_of_sample (Finite s))) = spec_pcm16 s"
proof -
  let ?y = "if clamp_unit s < 0 then clamp_unit s * 32768 else clamp_unit s * 32767"
  have "sint (ToInt16 (int16_of_sample (Finite s))) = trunc ?y"
    unfolding int16_of_sample_Finite by (rule sint_ToInt16) (rule scaled_range)+
  also have "trunc ?y = spec_pcm16 s"
  proof (cases "clamp_unit s < 0")
    case True
    then have "clamp_unit s * 32768 < 0" by (simp add: mult_less_0_iff)
    then show ?thesis using True by (simp add: trunc_def spec_pcm16_def ceiling_def)
  next
    case False
    then have "\<not> clamp_unit s * 32767 < 0" by (simp add: mult_less_0_iff)
    then show ?thesis using False by (simp add: trunc_def spec_pcm16_def)
  qed
  finally show ?thesis .
qed

lemma spec_pcm16_values:
  "spec_pcm16 1.5 = 32767" "spec_pcm16 1 = 32767"
  "spec_pcm16 (- 1.5) = - 32768" "spec_pcm16 (- 1) = - 32768"
  by (simp_all add: spec_pcm16_def clamp_unit_def)

lemma int16_of_sample_clamps:
  "int16_of_sample PosInfinity = int16_of_sample (Finite 1) \<and>
   int16_of_sample NegInfinity = int16_of_sample (Finite (- 1)) \<and>
   ToInt16 (int16_of_sample (Finite 1.5)) = ToInt16 (int16_of_sample (Finite 1)) \<and>
   sint (ToInt16 (int16_of_sample (Finite 1.5))) = 32767 \<and>
   ToInt16 (int16_of_sample (Finite (- 1.5))) = ToInt16 (int16_of_sample (Finite (- 1))) \<and>
   sint (ToInt16 (int16_of_sample (Finite (- 1.5)))) = - 32768"
proof -
  have a: "int16_of_sample (Finite 1) = Finite 32767"
    "int16_of_sample (Finite (- 1)) = Finite (- 32768)"
    "int16_of_sample (Finite 1.5) = Finite 32767"
    "int16_of_sample (Finite (- 1.5)) = Finite (- 32768)"
    by (simp_all add: int16_of_sample_Finite clamp_unit_def)
  have c1: "int16_of_sample PosInfinity = int16_of_sample (Finite 1)"
    by (simp only: a int16_of_sample_special)
  have c2: "int16_of_sample NegInfinity = int16_of_sample (Finite (- 1))"
    by (simp only: a int16_of_sample_special)
  have b1: "ToInt16 (int16_of_sample (Finite 1.5)) = ToInt16 (int16_of_sample (Finite 1))"
    by (simp only: a)
  have b2: "sint (ToInt16 (int16_of_sample (Finite 1.5))) = 32767"
    by (simp only: sint_pcm16 spec_pcm16_values)
  have b3: "ToInt16 (int16_of_sample (Finite (- 1.5))) = ToInt16 (int16_of_sample (Finite (- 1)))"
    by (simp only: a)
  have b4: "sint (ToInt16 (int16_of_sample (Finite (- 1.5)))) = - 32768"
    by (simp only: sint_pcm16 spec_pcm16_values)
  show ?thesis
    by (intro conjI) (fact c1 c2 b1 b2 b3 b4)+
qed

lemma take2_drop:
  "Suc p < length xs \<Longrightarrow> take 2 (drop p xs) = [xs ! p, xs ! Suc p]"
  by (simp add: numeral_2_eq_2 take_Suc_conv_app_nth)




lemma pairs_concat:
  "length xs = 2 * K \<Longrightarrow> (\<forall>k<K. [xs ! (2 * k), xs ! Suc (2 * k)] = g k) \<Longrightarrow>
   xs = concat (map g [0..<K])"
proof (induction K arbitrary: xs)
  case 0
  then show ?case by simp
next
  case (Suc K)
  let ?ys = "take (2 * K) xs"
  have l: "length ?ys = 2 * K" using Suc.prems(1) by simp
  have "\<forall>k<K. [?ys ! (2 * k), ?ys ! Suc (2 * k)] = g k"
    using Suc.prems(2) by simp
  from Suc.IH[OF l this] have ys: "?ys = concat (map g [0..<K])" .
  have "Suc (2 * K) < length xs" using Suc.prems(1) by simp
  then have "take 2 (drop (2 * K) xs) = [xs ! (2 * K), xs ! Suc (2 * K)]"
    by (rule take2_drop)
  moreover have "take 2 (drop (2 * K) xs) = drop (2 * K) xs" using Suc.prems(1) by simp
  moreover have "[xs ! (2 * K), xs ! Suc (2 * K)] = g K" using Suc.prems(2) by simp
  ultimately have d: "drop (2 * K) xs = g K" by simp
  have "xs = ?ys @ drop (2 * K) xs" by simp
  then have "xs = concat (map g [0..<K]) @ g K" using ys d by simp
  then show ?case by simp
qed

lemma frames_concat:
  "concat (map (\<lambda>i. concat (map (f i) [0..<n])) [0..<L])
     = concat (map (\<lambda>k. f (k div n) (k mod n)) [0..<L * n])"
proof (induction L)
  case 0
  show ?case by simp
next
  case (Suc L)
  have a: "Suc L * n = L * n + n" by simp
  have b: "[0..<L * n + n] = [0..<L * n] @ [L * n..<L * n + n]"
    by (rule upt_add_eq_append) simp
  have c: "map (\<lambda>c. c + L * n) [0..<n] = [L * n..<n + L * n]" by (rule map_add_upt)
  have c': "[L * n..<L * n + n] = map (\<lambda>c. c + L * n) [0..<n]"
    unfolding c by (simp only: add.commute[of n])
  have d: "map (\<lambda>k. f (k div n) (k mod n)) (map (\<lambda>c. c + L * n) [0..<n]) = map (f L) [0..<n]"
    by (simp add: o_def)
  have "concat (map (\<lambda>k. f (k div n) (k mod n)) [0..<Suc L * n])
      = concat (map (\<lambda>k. f (k div n) (k mod n)) [0..<L * n]) @ concat (map (f L) [0..<n])"
    unfolding a b c' by (simp only: map_append concat_append d)
  then show ?case using Suc.IH by simp
qed

lemma pcm_bytes_sample_bytes: "pcm_bytes (channels b ! c ! i) = sample_bytes b i c"
  by (simp add: pcm_bytes_def sample_bytes_def bytes16_sint)

text \<open>
  C6. In the encoding of a well-formed buffer, the two bytes at offset
  \<open>44 + i \<times> blockAlign + c \<times> 2\<close> are the 16-bit sample of frame \<open>i\<close> and channel \<open>c\<close>, low
  byte first. So the data section is the sequence of the frames, each frame the sequence of
  its channels' samples: frame-major and channel-interleaved, although \<open>write_data\<close> runs over
  the channels in its outer loop and over the frames in its inner loop.
\<close>

theorem sample_offset_interleaved:
  assumes "wf_buffer b"
  shows "\<exists>wav. audioBufferToWav b = Inr wav \<and>
           (\<forall>i<length' b. \<forall>c<numberOfChannels b.
              take 2 (drop (44 + i * (numberOfChannels b * 2) + c * 2) wav) = sample_bytes b i c) \<and>
           drop 44 wav =
             concat (map (\<lambda>i. concat (map (\<lambda>c. sample_bytes b i c) [0..<numberOfChannels b]))
                       [0..<length' b])"
proof -
  define n where "n = numberOfChannels b"
  define L where "L = length' b"
  from audioBufferToWav_result[of b] assms
  obtain wav where wav: "audioBufferToWav b = Inr wav"
    "length wav = 44 + L * n * 2"
    "\<And>c i. c < n \<Longrightarrow> i < L \<Longrightarrow> [wav ! pos n i c, wav ! Suc (pos n i c)] = sample_bytes b i c"
    unfolding n_def L_def pcm_bytes_sample_bytes by blast
  have at: "take 2 (drop (44 + i * (n * 2) + c * 2) wav) = sample_bytes b i c"
    if "i < L" "c < n" for i c
  proof -
    have off: "44 + i * (n * 2) + c * 2 = pos n i c" by (simp add: pos_def algebra_simps)
    have "Suc (pos n i c) < length wav" using pos_bound[OF that] wav(2) by simp
    then show ?thesis unfolding off using wav(3)[OF that(2,1)] by (simp add: take2_drop)
  qed
  let ?xs = "drop 44 wav"
  have lx: "length ?xs = 2 * (L * n)" using wav(2) by simp
  have pair: "[?xs ! (2 * k), ?xs ! Suc (2 * k)] = sample_bytes b (k div n) (k mod n)"
    if k: "k < L * n" for k
  proof -
    have npos: "0 < n" using k by (cases n) simp_all
    have i: "k div n < L" using k by (rule less_mult_imp_div_less)
    have c: "k mod n < n" using npos by simp
    have p: "pos n (k div n) (k mod n) = 44 + 2 * k" by (simp add: pos_def)
    have r: "44 + 2 * k < length wav" "44 + Suc (2 * k) < length wav" using k wav(2) by simp_all
    have "?xs ! (2 * k) = wav ! (44 + 2 * k)" "?xs ! Suc (2 * k) = wav ! Suc (44 + 2 * k)"
      using r by simp_all
    then show ?thesis using wav(3)[OF c i] unfolding p by simp
  qed
  have "?xs = concat (map (\<lambda>k. sample_bytes b (k div n) (k mod n)) [0..<L * n])"
    using lx pair by (intro pairs_concat) simp_all
  then have "?xs = concat (map (\<lambda>i. concat (map (\<lambda>c. sample_bytes b i c) [0..<n])) [0..<L])"
    by (simp only: frames_concat)
  with wav(1) at show ?thesis unfolding n_def L_def by blast
qed

theorem sample_offset_interleaved_witness:
  "wf_buffer stereo_buffer \<and> 1 < length' stereo_buffer \<and> 0 < numberOfChannels stereo_buffer \<and>
   (\<exists>wav. audioBufferToWav stereo_buffer = Inr wav \<and> take 2 (drop 48 wav) = [0, 128] \<and>
      drop 44 wav = [255, 63, 255, 127, 0, 128, 0, 0])"
proof -
  have h: "wf_buffer stereo_buffer" "1 < length' stereo_buffer" "0 < numberOfChannels stereo_buffer"
    by (simp_all add: stereo_buffer_def wf_buffer_def numberOfChannels_def)
  have v: "sample_bytes stereo_buffer 0 0 = [255, 63]" "sample_bytes stereo_buffer 0 1 = [255, 127]"
    "sample_bytes stereo_buffer 1 0 = [0, 128]" "sample_bytes stereo_buffer 1 1 = [0, 0]"
    by (simp_all add: sample_bytes_def stereo_buffer_def sint_pcm16 spec_pcm16_def clamp_unit_def
          trunc_def le_bytes_2)
  have v': "sample_bytes stereo_buffer 0 (Suc 0) = [255, 127]"
    "sample_bytes stereo_buffer (Suc 0) 0 = [0, 128]" "sample_bytes stereo_buffer (Suc 0) (Suc 0) = [0, 0]"
    using v by simp_all
  have n: "numberOfChannels stereo_buffer = 2" "length' stereo_buffer = 2"
    by (simp_all add: stereo_buffer_def numberOfChannels_def)
  have u: "[0..<2] = [0, 1]" by (simp add: upt_rec)
  from sample_offset_interleaved[OF h(1)]
  obtain wav where wav: "audioBufferToWav stereo_buffer = Inr wav"
    "\<forall>i<length' stereo_buffer. \<forall>c<numberOfChannels stereo_buffer.
        take 2 (drop (44 + i * (numberOfChannels stereo_buffer * 2) + c * 2) wav)
          = sample_bytes stereo_buffer i c"
    "drop 44 wav = concat (map (\<lambda>i. concat (map (\<lambda>c. sample_bytes stereo_buffer i c)
        [0..<numberOfChannels stereo_buffer])) [0..<length' stereo_buffer])"
    by blast
  have a: "take 2 (drop 48 wav) = [0, 128]"
    using wav(2)[rule_format, of 1 0] h unfolding n v by simp
  have b: "drop 44 wav = [255, 63, 255, 127, 0, 128, 0, 0]"
    using wav(3) unfolding n u by (simp add: v v')
  show ?thesis using h wav(1) a b by blast
qed

section \<open>The renderer: the filter chain and the shape of its result\<close>

lemma createFilter_result:
  "createFilter c config = (c\<lparr>nodes := nodes c @ [Biquad (stage_of config)]\<rparr>, length (nodes c))"
  by (cases "Q config")
     (simp_all add: createFilter_def createBiquadFilter_def update_biquad_def update_node_def
        stage_of_def default_biquad_def)

lemma chain_step_result:
  "chain_step config (c, cur) =
     (c\<lparr>nodes := nodes c @ [Biquad (stage_of config)],
        connections := connections c @ [(cur, length (nodes c))]\<rparr>, length (nodes c))"
  by (simp add: chain_step_def createFilter_result connect_def)

lemma fold_chain_step:
  "fold chain_step configs (c, cur) =
     (c\<lparr>nodes := nodes c @ map (\<lambda>config. Biquad (stage_of config)) configs,
        connections := connections c @ chain_edges cur (length (nodes c)) (length configs)\<rparr>,
      if configs = [] then cur else length (nodes c) + length configs - 1)"
proof (induction configs arbitrary: c cur)
  case Nil
  show ?case by simp
next
  case (Cons x xs)
  show ?case
    by (simp add: chain_step_result Cons.IH)
qed

lemma filter_chain_edges:
  "filter (\<lambda>e. snd e = t) (chain_edges cur n k) =
     (if n \<le> t \<and> t < n + k then [(if t = n then cur else t - 1, t)] else [])"
proof (induction k arbitrary: cur n)
  case 0
  show ?case by simp
next
  case (Suc k)
  show ?case by (auto simp: Suc.IH)
qed

lemma inputs_chain_graph_stage:
  "j < length configs \<Longrightarrow> inputs (chain_graph n len b configs) (Suc (Suc j)) = [Suc j]"
  by (auto simp: inputs_def chain_graph_def filter_chain_edges)

lemma inputs_chain_graph_destination:
  "inputs (chain_graph n len b configs) 0 = [Suc (length configs)]"
  by (simp add: inputs_def chain_graph_def filter_chain_edges)

lemma cascade_snoc:
  "j < length configs \<Longrightarrow>
   cascade P rate (take (Suc j) configs) xs
     = biquad P (stage_of (configs ! j)) rate (cascade P rate (take j configs) xs)"
  by (simp add: cascade_def take_Suc_conv_app_nth)

lemma bus_single: "length x = n \<Longrightarrow> bus P n [x] = x"
  by (simp add: bus_def)

lemma max_channels_single: "0 < length x \<Longrightarrow> max_channels [x] = length x"
  by (cases x) (simp_all add: max_channels_def)

lemma pull_chain_stage:
  assumes "j \<le> length configs" and "Suc j \<le> fuel" and "channels b \<noteq> []"
  shows "pull P (chain_graph n len b configs) fuel (Suc j)
           = map (\<lambda>ch. cascade P (sampleRate b) (take j configs) (fit len ch)) (channels b)"
  using assms
proof (induction j arbitrary: fuel)
  case 0
  then obtain f where f: "fuel = Suc f" by (cases fuel) auto
  show ?case
    by (simp add: f chain_graph_def play_def cascade_def)
next
  case (Suc j)
  then obtain f where f: "fuel = Suc f" by (cases fuel) auto
  let ?c = "chain_graph n len b configs"
  let ?x = "map (\<lambda>ch. cascade P (sampleRate b) (take j configs) (fit len ch)) (channels b)"
  have j: "j < length configs" using Suc.prems by simp
  have ih: "pull P ?c f (Suc j) = ?x"
    using Suc.IH[of f] Suc.prems f by simp
  have node: "nodes ?c ! Suc (Suc j) = Biquad (stage_of (configs ! j))"
    using j by (simp add: chain_graph_def)
  have rng: "\<not> length (nodes ?c) \<le> Suc (Suc j)" using j by (simp add: chain_graph_def)
  have rate: "ctx_sampleRate ?c = sampleRate b" by (simp add: chain_graph_def)
  have lx: "0 < length ?x" using Suc.prems(3) by simp
  have "pull P ?c (Suc f) (Suc (Suc j)) = map (biquad P (stage_of (configs ! j)) (sampleRate b)) ?x"
    using rng
    by (simp add: node inputs_chain_graph_stage[OF j] ih rate max_channels_single[OF lx] bus_single
          del: length_map)
  then show ?case
    unfolding f by (simp add: cascade_snoc[OF j])
qed

lemma pull_chain_destination:
  assumes "channels b \<noteq> []" and "length (channels b) = n"
  shows "pull P (chain_graph n len b configs) (length (nodes (chain_graph n len b configs))) 0
           = map (\<lambda>ch. cascade P (sampleRate b) configs (fit len ch)) (channels b)"
proof -
  let ?c = "chain_graph n len b configs"
  have l: "length (nodes ?c) = Suc (Suc (length configs))" by (simp add: chain_graph_def)
  have st: "pull P ?c (Suc (length configs)) (Suc (length configs))
           = map (\<lambda>ch. cascade P (sampleRate b) configs (fit len ch)) (channels b)"
    using pull_chain_stage[of "length configs" configs "Suc (length configs)" b P n len] assms(1)
    by simp
  have d: "nodes ?c ! 0 = Destination" "ctx_numberOfChannels ?c = n" by (simp_all add: chain_graph_def)
  have "pull P ?c (Suc (Suc (length configs))) 0
          = bus P n [pull P ?c (Suc (length configs)) (Suc (length configs))]"
    by (subst pull.simps(2)) (simp add: d inputs_chain_graph_destination l del: pull.simps)
  then show ?thesis
    unfolding l st using assms(2) by (simp add: bus_single)
qed

lemma insort_by_freq:
  "insort_by (\<lambda>a b. freq a - freq b) x ys = insort_key freq x ys"
  by (induction ys) simp_all

lemma sort_by_freq: "sort_by (\<lambda>a b. freq a - freq b) xs = sort_key freq xs"
  by (induction xs) (simp_all add: sort_by_def sort_key_def insort_by_freq)

lemma processAudio_refused:
  assumes "numberOfChannels b = 0 \<or> length' b = 0 \<or> sampleRate b \<le> 0
             \<or> \<not> nominal P (numberOfChannels b) (length' b) (sampleRate b)"
  shows "processAudio P h b = (h, Inl NotSupportedError)"
  using assms by (auto simp: processAudio_def new_OfflineAudioContext_def)

lemma built_graph:
  "start (connect (fst (fold chain_step configs
       (set_buffer (fst (createBufferSource
          \<lparr>ctx_numberOfChannels = n, ctx_length = len, ctx_sampleRate = sampleRate b,
            nodes = [Destination], connections = []\<rparr>)) (Suc 0) b, Suc 0)))
     (snd (fold chain_step configs
       (set_buffer (fst (createBufferSource
          \<lparr>ctx_numberOfChannels = n, ctx_length = len, ctx_sampleRate = sampleRate b,
            nodes = [Destination], connections = []\<rparr>)) (Suc 0) b, Suc 0))) destination) (Suc 0)
   = chain_graph n len b configs"
  by (cases "configs = []")
     (simp_all add: fold_chain_step createBufferSource_def set_buffer_def update_node_def
        connect_def start_def destination_def chain_graph_def numeral_2_eq_2)

lemma processAudio_accepted:
  assumes "0 < numberOfChannels b" "0 < length' b" "0 < sampleRate b"
    and "nominal P (numberOfChannels b) (length' b) (sampleRate b)"
  shows "processAudio P h b =
     (h @ [sort_key freq (array_at h filters_ref)],
      Inr (startRendering P (chain_graph (numberOfChannels b) (length' b) b
             (sort_key freq (array_at h filters_ref)))))"
proof -
  have ctx: "new_OfflineAudioContext P (numberOfChannels b) (length' b) (sampleRate b) =
     Inr \<lparr>ctx_numberOfChannels = numberOfChannels b, ctx_length = length' b,
          ctx_sampleRate = sampleRate b, nodes = [Destination], connections = []\<rparr>"
    using assms by (simp add: new_OfflineAudioContext_def)
  have src: "snd (createBufferSource \<lparr>ctx_numberOfChannels = numberOfChannels b, ctx_length = length' b,
          ctx_sampleRate = sampleRate b, nodes = [Destination], connections = []\<rparr>) = 1"
    by (simp add: createBufferSource_def)
  have heap: "Array_sort (fst (spread h filters_ref)) (snd (spread h filters_ref)) (\<lambda>a b. freq a - freq b)
      = (h @ [sort_key freq (array_at h filters_ref)], length h)"
    by (simp add: spread_def Array_sort_def array_at_def sort_by_freq)
  have arr: "array_at (h @ [sort_key freq (array_at h filters_ref)]) (length h)
      = sort_key freq (array_at h filters_ref)"
    by (simp add: array_at_def)
  show ?thesis
    unfolding processAudio_def ctx
    unfolding chain_step_def[symmetric] forEach_def
    by (simp add: case_prod_beta Let_def src heap arr built_graph)
qed

lemma array_at_filters_ref [simp]: "array_at (fs # hs) filters_ref = fs"
  by (simp add: array_at_def filters_ref_def)

lemma fit_same_length: "length xs = n \<Longrightarrow> fit n xs = xs"
  by (simp add: fit_def)

lemma wf_buffer_fit:
  assumes "wf_buffer b"
  shows "map (\<lambda>ch. cascade P rate stages (fit (length' b) ch)) (channels b)
           = map (cascade P rate stages) (channels b)"
  using assms by (simp add: wf_buffer_def list_all_iff fit_same_length)

lemma render_chain_graph:
  assumes "0 < numberOfChannels b"
  shows "startRendering P (chain_graph (numberOfChannels b) (length' b) b stages) =
     \<lparr>sampleRate = sampleRate b, length' = length' b,
      channels = map (\<lambda>ch. cascade P (sampleRate b) stages (fit (length' b) ch)) (channels b)\<rparr>"
proof -
  have ne: "channels b \<noteq> []" using assms by (auto simp: numberOfChannels_def)
  have n: "length (channels b) = numberOfChannels b" by (simp add: numberOfChannels_def)
  have p: "ctx_sampleRate (chain_graph (numberOfChannels b) (length' b) b stages) = sampleRate b"
    "ctx_length (chain_graph (numberOfChannels b) (length' b) b stages) = length' b"
    by (simp_all add: chain_graph_def)
  show ?thesis
    unfolding startRendering_def destination_def pull_chain_destination[OF ne n] p ..
qed

text \<open>
  C4. For every configuration list \<open>fs\<close> held by the array \<open>filters\<close>, and every buffer the
  platform accepts, the rendered samples of each channel are the cascade of the stages of
  \<open>fs\<close> taken in the order of a stable sort ascending by \<open>freq\<close> (sorted by frequency, entries
  of equal frequency in their original order), each stage working on the whole output of the
  stage before it; the same stages, with the same settings, for every channel.
\<close>

theorem filters_cascade_in_sorted_order:
  assumes "0 < numberOfChannels b" and "0 < length' b" and "0 < sampleRate b"
    and "nominal P (numberOfChannels b) (length' b) (sampleRate b)"
    and "wf_buffer b"
  shows "\<exists>out stages. snd (processAudio P (fs # hs) b) = Inr out \<and>
           channels out = map (cascade P (sampleRate b) stages) (channels b) \<and>
           stages = sort_key freq fs \<and>
           sorted (map freq stages) \<and>
           (\<forall>k. filter (\<lambda>x. freq x = k) stages = filter (\<lambda>x. freq x = k) fs)"
proof -
  let ?stages = "sort_key freq fs"
  let ?out = "\<lparr>sampleRate = sampleRate b, length' = length' b,
      channels = map (cascade P (sampleRate b) ?stages) (channels b)\<rparr>"
  have "snd (processAudio P (fs # hs) b) = Inr ?out"
    by (simp add: processAudio_accepted[OF assms(1-4)] render_chain_graph[OF assms(1)]
          wf_buffer_fit[OF assms(5)])
  moreover have "sorted (map freq ?stages)" by (rule sorted_sort_key)
  moreover have "\<forall>k. filter (\<lambda>x. freq x = k) ?stages = filter (\<lambda>x. freq x = k) fs"
    by (simp add: sort_key_stable)
  ultimately show ?thesis by simp
qed

theorem filters_cascade_in_sorted_order_witness:
  "0 < numberOfChannels stereo_buffer \<and> 0 < length' stereo_buffer \<and> 0 < sampleRate stereo_buffer \<and>
   nominal toy_platform (numberOfChannels stereo_buffer) (length' stereo_buffer) (sampleRate stereo_buffer) \<and>
   wf_buffer stereo_buffer \<and>
   (\<exists>out stages. snd (processAudio toy_platform module_heap stereo_buffer) = Inr out \<and>
           channels out = map (cascade toy_platform 44100 stages) (channels stereo_buffer) \<and>
           map freq stages = [170, 662, 3000, 7410])"
proof -
  have h: "0 < numberOfChannels stereo_buffer" "0 < length' stereo_buffer" "0 < sampleRate stereo_buffer"
    "nominal toy_platform (numberOfChannels stereo_buffer) (length' stereo_buffer) (sampleRate stereo_buffer)"
    "wf_buffer stereo_buffer"
    by (simp_all add: stereo_buffer_def numberOfChannels_def toy_platform_def wf_buffer_def)
  have s: "map freq (sort_key freq filters) = [170, 662, 3000, 7410]"
    by (simp add: filters_def sort_key_def)
  have r: "sampleRate stereo_buffer = 44100" by (simp add: stereo_buffer_def)
  from filters_cascade_in_sorted_order[OF h, of filters "[]"]
  obtain out stages where o: "snd (processAudio toy_platform [filters] stereo_buffer) = Inr out"
    "channels out = map (cascade toy_platform (sampleRate stereo_buffer) stages) (channels stereo_buffer)"
    "stages = sort_key freq filters"
    by blast
  have m: "map freq stages = [170, 662, 3000, 7410]" using o(3) s by simp
  have e: "\<exists>out stages. snd (processAudio toy_platform module_heap stereo_buffer) = Inr out \<and>
           channels out = map (cascade toy_platform 44100 stages) (channels stereo_buffer) \<and>
           map freq stages = [170, 662, 3000, 7410]"
    using o(1,2) m unfolding module_heap_def r by (intro exI[of _ out] exI[of _ stages]) simp
  show ?thesis using h e by simp
qed

lemma length_fit [simp]: "length (fit n xs) = n"
  by (simp add: fit_def)

lemma length_cascade:
  assumes "\<forall>f xs. length (biquad P f rate xs) = length xs"
  shows "length (cascade P rate stages xs) = length xs"
proof -
  have "length (fold (\<lambda>config ys. biquad P (stage_of config) rate ys) stages xs) = length xs"
    using assms by (induction stages arbitrary: xs) simp_all
  then show ?thesis by (simp add: cascade_def)
qed

text \<open>
  C5. For every non-empty buffer the platform accepts, rendering returns a buffer with the
  channel count, the frame count and the sample rate of the input; and when the filter stage
  of the platform gives one output sample for each input sample, every channel of the
  rendered buffer holds exactly that many frames.
\<close>

theorem render_preserves_shape:
  assumes "0 < numberOfChannels b" and "0 < length' b" and "0 < sampleRate b"
    and "nominal P (numberOfChannels b) (length' b) (sampleRate b)"
  shows "\<exists>out. snd (processAudio P h b) = Inr out \<and>
           numberOfChannels out = numberOfChannels b \<and>
           length' out = length' b \<and>
           sampleRate out = sampleRate b \<and>
           ((\<forall>f xs. length (biquad P f (sampleRate b) xs) = length xs) \<longrightarrow>
              length (channels out) = numberOfChannels b \<and>
              (\<forall>ch \<in> set (channels out). length ch = length' b) \<and> wf_buffer out)"
proof -
  let ?stages = "sort_key freq (array_at h filters_ref)"
  let ?out = "startRendering P (chain_graph (numberOfChannels b) (length' b) b ?stages)"
  have run: "snd (processAudio P h b) = Inr ?out"
    by (simp add: processAudio_accepted[OF assms])
  have r: "?out = \<lparr>sampleRate = sampleRate b, length' = length' b,
      channels = map (\<lambda>ch. cascade P (sampleRate b) ?stages (fit (length' b) ch)) (channels b)\<rparr>"
    by (rule render_chain_graph[OF assms(1)])
  have shape: "numberOfChannels ?out = numberOfChannels b \<and> length' ?out = length' b
          \<and> sampleRate ?out = sampleRate b"
    unfolding r by (simp add: numberOfChannels_def)
  have frames: "length (channels ?out) = numberOfChannels b \<and>
      (\<forall>ch \<in> set (channels ?out). length ch = length' b) \<and> wf_buffer ?out"
    if p: "\<forall>f xs. length (biquad P f (sampleRate b) xs) = length xs"
    unfolding r by (simp add: numberOfChannels_def wf_buffer_def list_all_iff length_cascade[OF p])
  from run shape frames show ?thesis by blast
qed

theorem render_preserves_shape_witness:
  "0 < numberOfChannels stereo_buffer \<and> 0 < length' stereo_buffer \<and> 0 < sampleRate stereo_buffer \<and>
   nominal toy_platform (numberOfChannels stereo_buffer) (length' stereo_buffer) (sampleRate stereo_buffer) \<and>
   (\<forall>f xs. length (biquad toy_platform f (sampleRate stereo_buffer) xs) = length xs) \<and>
   (\<exists>out. snd (processAudio toy_platform module_heap stereo_buffer) = Inr out \<and>
           numberOfChannels out = 2 \<and> length' out = 2 \<and> sampleRate out = 44100 \<and>
           length (channels out) = 2 \<and> (\<forall>ch \<in> set (channels out). length ch = 2) \<and>
           wf_buffer out)"
proof -
  have h: "0 < numberOfChannels stereo_buffer" "0 < length' stereo_buffer" "0 < sampleRate stereo_buffer"
    "nominal toy_platform (numberOfChannels stereo_buffer) (length' stereo_buffer) (sampleRate stereo_buffer)"
    by (simp_all add: stereo_buffer_def numberOfChannels_def toy_platform_def)
  have p: "\<forall>f xs. length (biquad toy_platform f (sampleRate stereo_buffer) xs) = length xs"
    by (simp add: toy_platform_def)
  have v: "numberOfChannels stereo_buffer = 2" "length' stereo_buffer = 2" "sampleRate stereo_buffer = 44100"
    by (simp_all add: stereo_buffer_def numberOfChannels_def)
  from render_preserves_shape[OF h, of module_heap] p
  obtain out where o: "snd (processAudio toy_platform module_heap stereo_buffer) = Inr out"
    "numberOfChannels out = numberOfChannels stereo_buffer" "length' out = length' stereo_buffer"
    "sampleRate out = sampleRate stereo_buffer" "length (channels out) = numberOfChannels stereo_buffer"
    "\<forall>ch \<in> set (channels out). length ch = length' stereo_buffer" "wf_buffer out"
    by blast
  have "\<exists>out. snd (processAudio toy_platform module_heap stereo_buffer) = Inr out \<and>
           numberOfChannels out = 2 \<and> length' out = 2 \<and> sampleRate out = 44100 \<and>
           length (channels out) = 2 \<and> (\<forall>ch \<in> set (channels out). length ch = 2) \<and>
           wf_buffer out"
    using o unfolding v by (intro exI[of _ out]) simp
  with h p show ?thesis by simp
qed

section \<open>The host: refusals, configuration, size gate, download name, arrays\<close>

lemma process_file_refused:
  assumes "decodeAudioData P (bytes file) = Inr b"
    and "numberOfChannels b = 0 \<or> length' b = 0 \<or> sampleRate b \<le> 0
             \<or> \<not> nominal P (numberOfChannels b) (length' b) (sampleRate b)"
  shows "process_file P h s file =
     (h, s\<lparr>isProcessing := False,
            error := ''Error processing audio file. Make sure the file is a valid audio format.''\<rparr>, None)"
  by (simp add: process_file_def assms(1) processAudio_refused[OF assms(2)])

lemma handleDrop_no_download_if_refused:
  assumes "decodeAudioData P (bytes file) = Inr b"
    and "numberOfChannels b = 0 \<or> length' b = 0 \<or> sampleRate b \<le> 0
             \<or> \<not> nominal P (numberOfChannels b) (length' b) (sampleRate b)"
  shows "fst (handleDrop P h s (file # files)) = h \<and> snd (snd (handleDrop P h s (file # files))) = None"
  by (simp add: handleDrop_def Let_def process_file_refused[OF assms])

text \<open>
  C3. Rendering a decoded buffer with no frames or no channels fails at the first statement
  of \<open>processAudio\<close>: the constructor of the offline context refuses a zero dimension with
  \<open>NotSupportedError\<close>. The store is left as it was, \<open>handleDrop\<close> catches the exception, and
  no download is produced: nothing is encoded.
\<close>

theorem empty_buffer_refused:
  assumes "length' b = 0 \<or> numberOfChannels b = 0"
    and "decodeAudioData P (bytes file) = Inr b"
  shows "processAudio P h b = (h, Inl NotSupportedError) \<and>
         snd (snd (handleDrop P h s (file # files))) = None"
proof -
  have r: "numberOfChannels b = 0 \<or> length' b = 0 \<or> sampleRate b \<le> 0
             \<or> \<not> nominal P (numberOfChannels b) (length' b) (sampleRate b)"
    using assms(1) by blast
  show ?thesis
    using processAudio_refused[OF r] handleDrop_no_download_if_refused[OF assms(2) r] by simp
qed

theorem empty_buffer_refused_witness:
  "(length' \<lparr>sampleRate = 8000, length' = 0, channels = [[]]\<rparr> = 0
      \<or> numberOfChannels \<lparr>sampleRate = 8000, length' = 0, channels = [[]]\<rparr> = 0) \<and>
   decodeAudioData toy_platform (bytes empty_file) = Inr \<lparr>sampleRate = 8000, length' = 0, channels = [[]]\<rparr> \<and>
   processAudio toy_platform module_heap \<lparr>sampleRate = 8000, length' = 0, channels = [[]]\<rparr>
     = (module_heap, Inl NotSupportedError) \<and>
   snd (snd (handleDrop toy_platform module_heap idle [empty_file])) = None"
proof -
  let ?b = "\<lparr>sampleRate = 8000, length' = 0, channels = [[]]\<rparr>"
  have a: "length' ?b = 0 \<or> numberOfChannels ?b = 0" by simp
  have d: "decodeAudioData toy_platform (bytes empty_file) = Inr ?b"
    by (simp add: toy_platform_def empty_file_def)
  show ?thesis
    using empty_buffer_refused[where h = module_heap and s = idle and files = "[]", OF a d] a d by simp
qed

text \<open>
  The component has no check of its own and no exception named \<open>EmptyBufferError\<close>; what
  reaches \<open>handleDrop\<close> for a buffer without frames is the platform's exception.
\<close>

theorem empty_buffer_error_counterexample:
  "snd (processAudio toy_platform module_heap empty_buffer) = Inl NotSupportedError \<and>
   snd (processAudio toy_platform module_heap empty_buffer) \<noteq> Inl (Exception ''EmptyBufferError'')"
  by (simp add: processAudio_refused empty_buffer_def)

text \<open>
  C7. The static configuration has exactly four entries: peaking at 170 Hz, +9.9 dB, Q 1.76;
  peaking at 662 Hz, -8.0 dB, Q 3.0; peaking at 3000 Hz, -11.2 dB, Q 2.76; highshelf at
  7410 Hz, +10 dB, without Q. It is what the array \<open>filters\<close> holds when the module is loaded,
  and for the entry without Q \<open>createFilter\<close> leaves the node's Q at the default of a new
  filter node.
\<close>

theorem static_filter_configuration:
  "length filters = 4 \<and>
   map type filters = [peaking, peaking, peaking, highshelf] \<and>
   map freq filters = [170, 662, 3000, 7410] \<and>
   map gain filters = [9.9, - 8.0, - 11.2, 10] \<and>
   map Q filters = [Some 1.76, Some 3.0, Some 2.76, None] \<and>
   module_heap ! filters_ref = filters \<and>
   createFilter c (filters ! 3) =
     (c\<lparr>nodes := nodes c @ [Biquad \<lparr>filter_type = highshelf, frequency = 7410, filter_gain = 10,
                                      filter_Q = filter_Q default_biquad\<rparr>]\<rparr>, length (nodes c))"
  by (simp add: filters_def module_heap_def filters_ref_def createFilter_result stage_of_def)

lemma process_file_error:
  "error (fst (snd (process_file P h s file))) = error s \<or>
   error (fst (snd (process_file P h s file)))
     = ''Error processing audio file. Make sure the file is a valid audio format.''"
  by (auto simp: process_file_def Let_def split: sum.splits prod.splits)

text \<open>
  C8. A file larger than 1073741824 bytes is always rejected before the decoder or anything
  else of the platform is called. A file that reaches the size check (its type is supported)
  is rejected there, with the size message, if and only if its size is strictly greater than
  1073741824 bytes; a file of at most that size, so also one of exactly 1073741824 bytes,
  passes and is handed to the processing block.
\<close>

theorem size_gate:
  "(1073741824 < size' file \<longrightarrow>
      (\<exists>message. handleDrop P h s (file # files)
                   = (h, s\<lparr>isDragging := False, error := message\<rparr>, None))) \<and>
   (file_type file \<in> set SUPPORTED_AUDIO_TYPES \<longrightarrow>
      (error (fst (snd (handleDrop P h s (file # files)))) = ''File size must be less than 1GB''
         \<longleftrightarrow> 1073741824 < size' file) \<and>
      (1073741824 < size' file \<longrightarrow>
         handleDrop P h s (file # files)
           = (h, s\<lparr>isDragging := False, error := ''File size must be less than 1GB''\<rparr>, None)) \<and>
      (size' file \<le> 1073741824 \<longrightarrow>
         handleDrop P h s (file # files)
           = process_file P h (s\<lparr>isDragging := False, error := '''', fileName := name file,
                                 isProcessing := True\<rparr>) file))"
proof -
  let ?s = "s\<lparr>isDragging := False, error := '''', fileName := name file, isProcessing := True\<rparr>"
  have any: "\<exists>message. handleDrop P h s (file # files)
                   = (h, s\<lparr>isDragging := False, error := message\<rparr>, None)"
    if "1073741824 < size' file"
    using that by (cases "file_type file \<in> set SUPPORTED_AUDIO_TYPES")
      (auto simp: handleDrop_def Let_def MAX_FILE_SIZE_def)
  have big: "handleDrop P h s (file # files)
              = (h, s\<lparr>isDragging := False, error := ''File size must be less than 1GB''\<rparr>, None)"
    if "1073741824 < size' file" "file_type file \<in> set SUPPORTED_AUDIO_TYPES"
    using that by (simp add: handleDrop_def Let_def MAX_FILE_SIZE_def)
  have small: "handleDrop P h s (file # files) = process_file P h ?s file"
    if "size' file \<le> 1073741824" "file_type file \<in> set SUPPORTED_AUDIO_TYPES"
    using that by (simp add: handleDrop_def Let_def MAX_FILE_SIZE_def)
  have ne: "error (fst (snd (process_file P h ?s file))) \<noteq> ''File size must be less than 1GB''"
    using process_file_error[of P h ?s "file"] by auto
  have iff: "error (fst (snd (handleDrop P h s (file # files)))) = ''File size must be less than 1GB''
         \<longleftrightarrow> 1073741824 < size' file"
    if t: "file_type file \<in> set SUPPORTED_AUDIO_TYPES"
  proof (cases "1073741824 < size' file")
    case True
    then show ?thesis using big[OF True t] by simp
  next
    case False
    then have "size' file \<le> 1073741824" by simp
    from small[OF this t] ne False show ?thesis by simp
  qed
  show ?thesis using any big small iff by blast
qed

theorem size_gate_witness:
  "file_type big_file \<in> set SUPPORTED_AUDIO_TYPES \<and> 1073741824 < size' big_file \<and>
   handleDrop toy_platform module_heap idle [big_file]
     = (module_heap, idle\<lparr>isDragging := False, error := ''File size must be less than 1GB''\<rparr>, None) \<and>
   file_type limit_file \<in> set SUPPORTED_AUDIO_TYPES \<and> size' limit_file \<le> 1073741824 \<and>
   handleDrop toy_platform module_heap idle [limit_file]
     = process_file toy_platform module_heap
         (idle\<lparr>isDragging := False, error := '''', fileName := name limit_file, isProcessing := True\<rparr>)
         limit_file"
proof -
  have b: "file_type big_file \<in> set SUPPORTED_AUDIO_TYPES" "1073741824 < size' big_file"
    by (simp_all add: big_file_def SUPPORTED_AUDIO_TYPES_def)
  have l: "file_type limit_file \<in> set SUPPORTED_AUDIO_TYPES" "size' limit_file \<le> 1073741824"
    by (simp_all add: limit_file_def SUPPORTED_AUDIO_TYPES_def)
  have "handleDrop toy_platform module_heap idle [big_file]
     = (module_heap, idle\<lparr>isDragging := False, error := ''File size must be less than 1GB''\<rparr>, None)"
    using size_gate[of big_file toy_platform module_heap idle "[]"] b by blast
  moreover have "handleDrop toy_platform module_heap idle [limit_file]
     = process_file toy_platform module_heap
         (idle\<lparr>isDragging := False, error := '''', fileName := name limit_file, isProcessing := True\<rparr>)
         limit_file"
    using size_gate[of limit_file toy_platform module_heap idle "[]"] l by blast
  ultimately show ?thesis using b l by blast
qed

text \<open>
  Without the restriction to files that reach the size check the equivalence fails: a file
  of one byte whose type is not supported is rejected before anything of the platform is
  called, by the type check of lines 88 to 91.
\<close>

theorem size_gate_counterexample:
  "\<not> 1073741824 < size' text_file \<and>
   handleDrop toy_platform module_heap idle [text_file]
     = (module_heap,
        idle\<lparr>isDragging := False,
             error := ''Unsupported file type. Please use a standard audio format (WAV, MP3, OGG, AAC, M4A, FLAC)''\<rparr>,
        None)"
  by (simp add: handleDrop_def Let_def text_file_def SUPPORTED_AUDIO_TYPES_def)

lemma lastIndexOf_below_none:
  "(\<forall>i<k. s ! i \<noteq> c) \<Longrightarrow> lastIndexOf_below s c k = - 1"
  by (induction k) simp_all

lemma lastIndexOf_below_found:
  "j < k \<Longrightarrow> s ! j = c \<Longrightarrow> (\<forall>i. j < i \<and> i < k \<longrightarrow> s ! i \<noteq> c) \<Longrightarrow>
   lastIndexOf_below s c k = int j"
proof (induction k)
  case 0
  then show ?case by simp
next
  case (Suc k)
  show ?case
  proof (cases "j = k")
    case True
    then show ?thesis using Suc.prems by simp
  next
    case False
    then have "j < k" using Suc.prems(1) by simp
    moreover have "s ! k \<noteq> c" using Suc.prems(3) \<open>j < k\<close> by simp
    ultimately show ?thesis using Suc by simp
  qed
qed

lemma lastIndexOf_absent: "c \<notin> set s \<Longrightarrow> lastIndexOf s c = - 1"
  unfolding lastIndexOf_def by (rule lastIndexOf_below_none) (metis nth_mem)

lemma lastIndexOf_last:
  assumes "c \<notin> set ext"
  shows "lastIndexOf (stem @ c # ext) c = int (length stem)"
  unfolding lastIndexOf_def
proof (rule lastIndexOf_below_found)
  show "length stem < length (stem @ c # ext)" by simp
  show "(stem @ c # ext) ! length stem = c" by simp
  show "\<forall>i. length stem < i \<and> i < length (stem @ c # ext) \<longrightarrow> (stem @ c # ext) ! i \<noteq> c"
  proof (intro allI impI)
    fix i assume i: "length stem < i \<and> i < length (stem @ c # ext)"
    define q where "q = i - Suc (length stem)"
    have q: "i = length stem + Suc q" using i by (simp add: q_def)
    have "q < length ext" using i unfolding q by simp
    then have "ext ! q \<in> set ext" by (rule nth_mem)
    then have ne: "ext ! q \<noteq> c" using assms by auto
    have "(stem @ c # ext) ! i = ext ! q" unfolding q by (simp only: nth_append_length_plus nth_Cons_Suc)
    then show "(stem @ c # ext) ! i \<noteq> c" using ne by simp
  qed
qed

lemma newFileName_cases:
  "(CHR ''.'' \<notin> set n \<longrightarrow> newFileName n = n @ ''-EQ'') \<and>
   (\<forall>stem ext. n = stem @ ''.'' @ ext \<and> CHR ''.'' \<notin> set ext \<longrightarrow>
      newFileName n = stem @ ''-EQ'' @ ''.'' @ ext)"
proof (intro conjI allI impI)
  assume "CHR ''.'' \<notin> set n"
  then show "newFileName n = n @ ''-EQ''"
    by (simp add: newFileName_def lastIndexOf_absent)
next
  fix stem ext assume a: "n = stem @ ''.'' @ ext \<and> CHR ''.'' \<notin> set ext"
  then have l: "lastIndexOf n CHR ''.'' = int (length stem)"
    using lastIndexOf_last[of "CHR ''.''" ext stem] by simp
  have s1: "slice n 0 (int (length stem)) = stem" using a by (simp add: slice_def)
  have s2: "slice n (int (length stem)) (int (length n)) = ''.'' @ ext"
    using a by (simp add: slice_def)
  show "newFileName n = stem @ ''-EQ'' @ ''.'' @ ext"
    unfolding newFileName_def l Let_def s1 s2 by simp
qed

lemma process_file_download:
  assumes "decodeAudioData P (bytes file) = Inr b"
    and "0 < numberOfChannels b" and "0 < length' b" and "0 < sampleRate b"
    and "nominal P (numberOfChannels b) (length' b) (sampleRate b)"
  shows "\<exists>wav. snd (snd (process_file P h s file))
           = Some \<lparr>blob = wav, blob_type = file_type file,
                   download_name = newFileName (name file)\<rparr>"
proof -
  let ?out = "startRendering P (chain_graph (numberOfChannels b) (length' b) b
             (sort_key freq (array_at h filters_ref)))"
  have run: "processAudio P h b = (h @ [sort_key freq (array_at h filters_ref)], Inr ?out)"
    by (rule processAudio_accepted[OF assms(2-5)])
  from audioBufferToWav_result[of ?out]
  obtain wav where wav: "audioBufferToWav ?out = Inr wav" by blast
  have "snd (snd (process_file P h s file))
           = Some \<lparr>blob = wav, blob_type = file_type file,
                   download_name = newFileName (name file)\<rparr>"
    by (simp add: process_file_def Let_def assms(1) run wav)
  then show ?thesis by blast
qed

text \<open>
  C9. When a dropped file passes the checks and is decoded to a buffer the platform renders,
  \<open>handleDrop\<close> offers a download, and its name is derived from the name of the file: the name
  followed by \<open>-EQ\<close> when the name has no dot, and otherwise the name with \<open>-EQ\<close> inserted
  immediately before its last dot, that is before the extension.
\<close>

theorem download_name:
  assumes "file_type file \<in> set SUPPORTED_AUDIO_TYPES" and "size' file \<le> 1073741824"
    and "decodeAudioData P (bytes file) = Inr b"
    and "0 < numberOfChannels b" and "0 < length' b" and "0 < sampleRate b"
    and "nominal P (numberOfChannels b) (length' b) (sampleRate b)"
  shows "\<exists>d. snd (snd (handleDrop P h s (file # files))) = Some d \<and>
           download_name d = newFileName (name file) \<and>
           (CHR ''.'' \<notin> set (name file) \<longrightarrow> download_name d = name file @ ''-EQ'') \<and>
           (\<forall>stem ext. name file = stem @ ''.'' @ ext \<and> CHR ''.'' \<notin> set ext \<longrightarrow>
              download_name d = stem @ ''-EQ'' @ ''.'' @ ext)"
proof -
  let ?s = "s\<lparr>isDragging := False, error := '''', fileName := name file, isProcessing := True\<rparr>"
  have gate: "handleDrop P h s (file # files) = process_file P h ?s file"
    using assms(1,2) by (simp add: handleDrop_def Let_def MAX_FILE_SIZE_def)
  from process_file_download[OF assms(3-7), of h ?s]
  obtain wav where d: "snd (snd (process_file P h ?s file))
           = Some \<lparr>blob = wav, blob_type = file_type file,
                   download_name = newFileName (name file)\<rparr>"
    by blast
  let ?d = "\<lparr>blob = wav, blob_type = file_type file, download_name = newFileName (name file)\<rparr>"
  have a: "snd (snd (handleDrop P h s (file # files))) = Some ?d"
    unfolding gate by (rule d)
  have b: "download_name ?d = newFileName (name file)" by simp
  have c: "CHR ''.'' \<notin> set (name file) \<longrightarrow> download_name ?d = name file @ ''-EQ''"
    using newFileName_cases[of "name file"] by simp
  have e: "\<forall>stem ext. name file = stem @ ''.'' @ ext \<and> CHR ''.'' \<notin> set ext \<longrightarrow>
              download_name ?d = stem @ ''-EQ'' @ ''.'' @ ext"
    using newFileName_cases[of "name file"] by simp
  show ?thesis
    by (intro exI[of _ ?d] conjI) (fact a b c e)+
qed

theorem download_name_witness:
  "file_type song_file \<in> set SUPPORTED_AUDIO_TYPES \<and> size' song_file \<le> 1073741824 \<and>
   decodeAudioData toy_platform (bytes song_file) = Inr decoded_song \<and>
   file_type plain_file \<in> set SUPPORTED_AUDIO_TYPES \<and> size' plain_file \<le> 1073741824 \<and>
   decodeAudioData toy_platform (bytes plain_file) = Inr decoded_song \<and>
   0 < numberOfChannels decoded_song \<and> 0 < length' decoded_song \<and> 0 < sampleRate decoded_song \<and>
   nominal toy_platform (numberOfChannels decoded_song) (length' decoded_song) (sampleRate decoded_song) \<and>
   name song_file = ''my.song'' @ ''.'' @ ''mp3'' \<and> CHR ''.'' \<notin> set ''mp3'' \<and>
   CHR ''.'' \<notin> set (name plain_file) \<and>
   (\<exists>d. snd (snd (handleDrop toy_platform module_heap idle [song_file])) = Some d \<and>
        download_name d = ''my.song-EQ.mp3'') \<and>
   (\<exists>d. snd (snd (handleDrop toy_platform module_heap idle [plain_file])) = Some d \<and>
        download_name d = ''song-EQ'')"
proof -
  have g: "file_type song_file \<in> set SUPPORTED_AUDIO_TYPES" "size' song_file \<le> 1073741824"
    "decodeAudioData toy_platform (bytes song_file) = Inr decoded_song"
    by (simp_all add: song_file_def SUPPORTED_AUDIO_TYPES_def toy_platform_def decoded_song_def)
  have g': "file_type plain_file \<in> set SUPPORTED_AUDIO_TYPES" "size' plain_file \<le> 1073741824"
    "decodeAudioData toy_platform (bytes plain_file) = Inr decoded_song"
    by (simp_all add: plain_file_def SUPPORTED_AUDIO_TYPES_def toy_platform_def decoded_song_def)
  have k: "0 < numberOfChannels decoded_song" "0 < length' decoded_song" "0 < sampleRate decoded_song"
    "nominal toy_platform (numberOfChannels decoded_song) (length' decoded_song) (sampleRate decoded_song)"
    by (simp_all add: decoded_song_def numberOfChannels_def toy_platform_def)
  have n: "name song_file = ''my.song'' @ ''.'' @ ''mp3'' \<and> CHR ''.'' \<notin> set ''mp3''"
    by (simp add: song_file_def)
  have n': "CHR ''.'' \<notin> set (name plain_file)" by (simp add: plain_file_def)
  from download_name[where h = module_heap and s = idle and files = "[]", OF g k]
  obtain d where d: "snd (snd (handleDrop toy_platform module_heap idle [song_file])) = Some d"
    "\<forall>stem ext. name song_file = stem @ ''.'' @ ext \<and> CHR ''.'' \<notin> set ext \<longrightarrow>
              download_name d = stem @ ''-EQ'' @ ''.'' @ ext"
    by blast
  have "download_name d = ''my.song'' @ ''-EQ'' @ ''.'' @ ''mp3''"
    using d(2)[THEN spec, THEN spec, of "''my.song''" "''mp3''"] n by (rule mp)
  then have a: "\<exists>d. snd (snd (handleDrop toy_platform module_heap idle [song_file])) = Some d \<and>
        download_name d = ''my.song-EQ.mp3''"
    using d(1) by (intro exI[of _ d]) simp
  from download_name[where h = module_heap and s = idle and files = "[]", OF g' k]
  obtain d' where d': "snd (snd (handleDrop toy_platform module_heap idle [plain_file])) = Some d'"
    "CHR ''.'' \<notin> set (name plain_file) \<longrightarrow> download_name d' = name plain_file @ ''-EQ''"
    by blast
  have "download_name d' = name plain_file @ ''-EQ''" using d'(2) n' by (rule mp)
  then have b: "\<exists>d. snd (snd (handleDrop toy_platform module_heap idle [plain_file])) = Some d \<and>
        download_name d = ''song-EQ''"
    using d'(1) by (intro exI[of _ d']) (simp add: plain_file_def)
  show ?thesis
    by (intro conjI) (fact g g' k n[THEN conjunct1] n[THEN conjunct2] n' a b)+
qed

lemma process_file_download_name:
  "process_file P h s file = (h', s', Some d) \<Longrightarrow>
   download_name d = newFileName (name file) \<and> blob_type d = file_type file"
  by (auto simp: process_file_def Let_def split: sum.splits prod.splits)

lemma Array_sort_in_place:
  "r < length h \<Longrightarrow> fst (Array_sort h r f) ! r = sort_by f (h ! r) \<and> snd (Array_sort h r f) = r"
  by (simp add: Array_sort_def array_at_def)

lemma spread_fresh:
  "snd (spread h r) = length h \<and> (\<forall>q<length h. fst (spread h r) ! q = h ! q)"
  by (simp add: spread_def nth_append)

lemma processAudio_keeps_arrays:
  assumes "r < length h"
  shows "fst (processAudio P h b) ! r = h ! r \<and> length h \<le> length (fst (processAudio P h b))"
proof (cases "0 < numberOfChannels b \<and> 0 < length' b \<and> 0 < sampleRate b
                \<and> nominal P (numberOfChannels b) (length' b) (sampleRate b)")
  case True
  then show ?thesis using assms by (simp add: processAudio_accepted nth_append)
next
  case False
  then have "numberOfChannels b = 0 \<or> length' b = 0 \<or> sampleRate b \<le> 0
             \<or> \<not> nominal P (numberOfChannels b) (length' b) (sampleRate b)"
    by auto
  then show ?thesis by (simp add: processAudio_refused)
qed

lemma runs_keep_arrays:
  "r < length h \<Longrightarrow> runs P bs h ! r = h ! r \<and> length h \<le> length (runs P bs h)"
proof (induction bs arbitrary: h)
  case Nil
  show ?case by (simp add: runs_def)
next
  case (Cons b bs)
  let ?h = "fst (processAudio P h b)"
  have k: "?h ! r = h ! r" "length h \<le> length ?h"
    using processAudio_keeps_arrays[OF Cons.prems] by simp_all
  then have "r < length ?h" using Cons.prems by simp
  from Cons.IH[OF this] k show ?case by (simp add: runs_def)
qed

lemma fst_process_file:
  "fst (process_file P h s file) =
     (case decodeAudioData P (bytes file) of Inl e \<Rightarrow> h | Inr b \<Rightarrow> fst (processAudio P h b))"
  by (auto simp: process_file_def Let_def split: sum.splits prod.splits)

lemma handleDrop_keeps_arrays:
  assumes "r < length h"
  shows "fst (handleDrop P h s files) ! r = h ! r \<and> length h \<le> length (fst (handleDrop P h s files))"
proof -
  have "fst (process_file P h s' f) ! r = h ! r \<and> length h \<le> length (fst (process_file P h s' f))"
    for s' f
    using processAudio_keeps_arrays[OF assms]
    by (simp add: fst_process_file split: sum.splits)
  then show ?thesis
    by (simp add: handleDrop_def Let_def split: list.splits)
qed

lemma drops_keep_arrays:
  "r < length (fst st) \<Longrightarrow>
   fst (drops P ds st) ! r = fst st ! r \<and> length (fst st) \<le> length (fst (drops P ds st))"
proof (induction ds arbitrary: st)
  case Nil
  show ?case by (simp add: drops_def)
next
  case (Cons d ds)
  obtain h s where st: "st = (h, s)" by (cases st)
  let ?st = "(fst (handleDrop P h s d), fst (snd (handleDrop P h s d)))"
  have k: "fst ?st ! r = h ! r" "length h \<le> length (fst ?st)"
    using handleDrop_keeps_arrays[of r h P s d] Cons.prems st by simp_all
  then have "r < length (fst ?st)" using Cons.prems st by simp
  from Cons.IH[OF this] k show ?case by (simp add: drops_def st)
qed

text \<open>
  C10. Whatever buffers are rendered and whatever files are dropped, in any number and with
  any outcome, the array \<open>filters\<close> holds the original four entries in their original order
  afterwards: \<open>processAudio\<close> sorts a fresh copy, never the module's array. The same holds
  for any content \<open>fs\<close> of that array, sorted or not.
\<close>

theorem filters_array_not_mutated:
  "runs P bs module_heap ! filters_ref = filters \<and>
   fst (drops P ds (module_heap, s)) ! filters_ref = filters \<and>
   runs P bs (fs # hs) ! filters_ref = fs \<and>
   fst (drops P ds (fs # hs, s)) ! filters_ref = fs"
  using runs_keep_arrays[of filters_ref module_heap P bs]
    drops_keep_arrays[of filters_ref "(module_heap, s)" P ds]
    runs_keep_arrays[of filters_ref "fs # hs" P bs]
    drops_keep_arrays[of filters_ref "(fs # hs, s)" P ds]
  by (simp add: module_heap_def filters_ref_def)

end
